theory Spec2Isabelle
  imports Main "HOL-Library.AList"
begin

section \<open>Strings\<close>

text \<open>
  Python's \<open>s.startswith(p)\<close> and \<open>s.replace(old, new)\<close> on strings.
  \<open>replace\<close> substitutes every non-overlapping occurrence of \<open>old\<close>, scanning from the
  left; with an empty \<open>old\<close> it puts \<open>new\<close> before every character and at the end.
\<close>

definition startswith :: "string \<Rightarrow> string \<Rightarrow> bool" where
  "startswith s p = (take (length p) s = p)"

function replace_str :: "string \<Rightarrow> string \<Rightarrow> string \<Rightarrow> string" where
  "replace_str old new [] = (if old = [] then new else [])"
| "replace_str old new (c # cs) =
     (if old = [] then new @ c # replace_str old new cs
      else if startswith (c # cs) old
        then new @ replace_str old new (drop (length old) (c # cs))
        else c # replace_str old new cs)"
  by pat_completeness auto
termination
  by (relation "measure (\<lambda>(old, new, s). length s)") auto

section \<open>Depth Resolver\<close>

text \<open>
  \<open>RedditExtractor._calculate_comment_depth\<close> (extractor.py, lines 293-307). A comment is
  read through its \<open>id\<close> and \<open>parent_id\<close> attributes only; \<open>comment_map\<close> is the dict
  built in \<open>get_submission_comments\<close> (lines 338-344), from comment id to parent reference.
\<close>

record comment =
  comment_id :: string
  parent_id :: string

definition build_comment_map :: "comment list \<Rightarrow> (string \<rightharpoonup> string)" where
  "build_comment_map comment_list =
     fold (\<lambda>c m. m(comment_id c \<mapsto> parent_id c)) comment_list Map.empty"

definition max_iterations :: nat where
  "max_iterations = 50"

text \<open>
  The \<open>while\<close> loop. The condition reads \<open>current_parent and
  current_parent.startswith('t1_') and depth < max_iterations\<close>; the body looks the
  stripped id up and either follows the link or breaks.
\<close>

function depth_loop :: "(string \<rightharpoonup> string) \<Rightarrow> string \<Rightarrow> nat \<Rightarrow> nat" where
  "depth_loop comment_map current_parent depth =
     (if current_parent \<noteq> [] \<and> startswith current_parent ''t1_'' \<and> depth < max_iterations
      then (case comment_map (replace_str ''t1_'' [] current_parent) of
              Some p \<Rightarrow> depth_loop comment_map p (depth + 1)
            | None \<Rightarrow> depth)
      else depth)"
  by pat_completeness auto
termination
  by (relation "measure (\<lambda>(m, c, d). max_iterations - d)") auto

declare depth_loop.simps [simp del]

definition calculate_comment_depth :: "comment \<Rightarrow> (string \<rightharpoonup> string) \<Rightarrow> nat" where
  "calculate_comment_depth c comment_map = depth_loop comment_map (parent_id c) 0"

text \<open>
  The same loop with a counter of the executions of its body, to state how many
  iterations a call takes. The first component is the depth.
\<close>

function depth_loop_count :: "(string \<rightharpoonup> string) \<Rightarrow> string \<Rightarrow> nat \<Rightarrow> nat \<Rightarrow> nat \<times> nat" where
  "depth_loop_count comment_map current_parent depth iters =
     (if current_parent \<noteq> [] \<and> startswith current_parent ''t1_'' \<and> depth < max_iterations
      then (case comment_map (replace_str ''t1_'' [] current_parent) of
              Some p \<Rightarrow> depth_loop_count comment_map p (depth + 1) (iters + 1)
            | None \<Rightarrow> (depth, iters + 1))
      else (depth, iters))"
  by pat_completeness auto
termination
  by (relation "measure (\<lambda>(m, c, d, i). max_iterations - d)") auto

declare depth_loop_count.simps [simp del]

text \<open>
  The true nesting depth, from the data model: a parent reference either names a
  comment (\<open>t1_\<close> followed by the comment's id) or the item; the depth of a reference is
  the number of comment links on the way to the item.
\<close>

definition is_comment_ref :: "string \<Rightarrow> bool" where
  "is_comment_ref r = startswith r ''t1_''"

inductive parent_chain :: "(string \<rightharpoonup> string) \<Rightarrow> string \<Rightarrow> nat \<Rightarrow> bool" where
  at_item: "\<not> is_comment_ref r \<Longrightarrow> parent_chain m r 0"
| via_comment: "is_comment_ref r \<Longrightarrow> m (drop 3 r) = Some p \<Longrightarrow> parent_chain m p n
     \<Longrightarrow> parent_chain m r (Suc n)"

code_pred parent_chain .

text \<open>
  A thread of \<open>k + 1\<close> comments, each the reply to the one before, the first a reply
  to the item: the input used to exercise deep nesting.
\<close>

fun nm :: "nat \<Rightarrow> string" where
  "nm 0 = ''c''"
| "nm (Suc k) = CHR ''x'' # nm k"

fun thread :: "nat \<Rightarrow> comment list" where
  "thread 0 = [\<lparr>comment_id = nm 0, parent_id = ''t3_post''\<rparr>]"
| "thread (Suc k) = \<lparr>comment_id = nm (Suc k), parent_id = ''t1_'' @ nm k\<rparr> # thread k"

text \<open>The parent map of a two-comment cycle: \<open>a\<close> replies to \<open>b\<close> and \<open>b\<close> to \<open>a\<close>.\<close>

definition cyclic_map :: "string \<rightharpoonup> string" where
  "cyclic_map = build_comment_map
     [\<lparr>comment_id = ''a'', parent_id = ''t1_b''\<rparr>, \<lparr>comment_id = ''b'', parent_id = ''t1_a''\<rparr>]"

section \<open>Checkpoint Store\<close>

text \<open>
  \<open>CheckpointManager\<close> (extractor.py, lines 55-96). \<open>self.data\<close> is whatever
  \<open>json.load\<close> returned, so it is modelled as a JSON value; a dict is a list of
  key-value pairs in insertion order. The file named by \<open>self.file\<close> is a cell of
  its own: absent, present but failing to open or parse, or holding a JSON value
  (\<open>json.dump\<close> followed by \<open>json.load\<close> is taken to give the value back).
\<close>

datatype json = JNull | JBool bool | JNum int | JStr string | JList "json list"
  | JObj "(string \<times> json) list"

datatype file_state = Missing | Unreadable | Contents json

datatype py_error = KeyError | TypeError | AttributeError | IndexError | ValueError | OSError

record CheckpointManager =
  data :: json

definition empty_checkpoint :: json where
  "empty_checkpoint = JObj [(''processed_posts'', JList []), (''last_run'', JNull)]"

text \<open>\<open>_load\<close>: the bare \<open>except\<close> swallows every failure of \<open>open\<close> and \<open>json.load\<close>.\<close>

definition load :: "file_state \<Rightarrow> json" where
  "load f = (case f of
       Missing \<Rightarrow> empty_checkpoint
     | Unreadable \<Rightarrow> empty_checkpoint
     | Contents j \<Rightarrow> j)"

definition init_checkpoint :: "file_state \<Rightarrow> CheckpointManager" where
  "init_checkpoint f = \<lparr>data = load f\<rparr>"

text \<open>
  \<open>self.data['processed_posts']\<close>: subscripting with a string needs a dict that has
  the key.
\<close>

definition processed_posts :: "json \<Rightarrow> py_error + json" where
  "processed_posts d = (case d of
       JObj kvs \<Rightarrow> (case map_of kvs ''processed_posts'' of
                     None \<Rightarrow> Inl KeyError
                   | Some v \<Rightarrow> Inr v)
     | _ \<Rightarrow> Inl TypeError)"

text \<open>
  What the file system does when \<open>save\<close> rewrites the file: the write goes through;
  \<open>open(self.file, 'w')\<close> raises and the file stays as it was; or the file is opened,
  hence truncated, and \<open>json.dump\<close> raises before the contents are complete.
\<close>

datatype write_result = Written | OpenFails | DumpFails

text \<open>
  \<open>save\<close>: append to the list, set \<open>last_run\<close> (the argument \<open>now\<close> stands for
  \<open>datetime.now().isoformat()\<close>), rewrite the file. The two updates of \<open>self.data\<close>
  happen before the file is touched, so they stay when the write raises. The result is
  the exception raised, if any, the manager and the file.
\<close>

record save_result =
  raised :: "py_error option"
  saved_manager :: CheckpointManager
  saved_file :: file_state

definition save :: "CheckpointManager \<Rightarrow> file_state \<Rightarrow> write_result \<Rightarrow> string \<Rightarrow> string
    \<Rightarrow> save_result" where
  "save m f w post_id now = (case processed_posts (data m) of
       Inl e \<Rightarrow> \<lparr>raised = Some e, saved_manager = m, saved_file = f\<rparr>
     | Inr (JList xs) \<Rightarrow>
         (case data m of
            JObj kvs \<Rightarrow>
              (let kvs1 = AList.update ''processed_posts'' (JList (xs @ [JStr post_id])) kvs;
                   kvs2 = AList.update ''last_run'' (JStr now) kvs1;
                   m' = m\<lparr>data := JObj kvs2\<rparr>
               in (case w of
                     Written \<Rightarrow>
                       \<lparr>raised = None, saved_manager = m', saved_file = Contents (JObj kvs2)\<rparr>
                   | OpenFails \<Rightarrow>
                       \<lparr>raised = Some OSError, saved_manager = m', saved_file = f\<rparr>
                   | DumpFails \<Rightarrow>
                       \<lparr>raised = Some OSError, saved_manager = m', saved_file = Unreadable\<rparr>))
          | _ \<Rightarrow> \<lparr>raised = Some TypeError, saved_manager = m, saved_file = f\<rparr>)
     | Inr _ \<Rightarrow> \<lparr>raised = Some AttributeError, saved_manager = m, saved_file = f\<rparr>)"

text \<open>Python's \<open>x in s\<close> for strings: \<open>x\<close> occurs in \<open>s\<close> as a substring.\<close>

fun is_substring :: "string \<Rightarrow> string \<Rightarrow> bool" where
  "is_substring x [] = (x = [])"
| "is_substring x (c # cs) = (startswith (c # cs) x \<or> is_substring x cs)"

text \<open>\<open>is_processed\<close>: \<open>post_id in self.data['processed_posts']\<close>.\<close>

definition is_processed :: "CheckpointManager \<Rightarrow> string \<Rightarrow> py_error + bool" where
  "is_processed m post_id = (case processed_posts (data m) of
       Inl e \<Rightarrow> Inl e
     | Inr (JList xs) \<Rightarrow> Inr (JStr post_id \<in> set xs)
     | Inr (JObj kvs) \<Rightarrow> Inr (post_id \<in> fst ` set kvs)
     | Inr (JStr s) \<Rightarrow> Inr (is_substring post_id s)
     | Inr _ \<Rightarrow> Inl TypeError)"

definition clear :: "CheckpointManager \<Rightarrow> CheckpointManager \<times> file_state" where
  "clear m = (m\<lparr>data := empty_checkpoint\<rparr>, Missing)"

text \<open>The list of processed ids of a well-shaped state.\<close>

definition processed_list :: "CheckpointManager \<Rightarrow> json list" where
  "processed_list m = (case processed_posts (data m) of Inr (JList xs) \<Rightarrow> xs | _ \<Rightarrow> [])"

section \<open>Rate Governor\<close>

text \<open>
  \<open>RateLimiter\<close> (extractor.py, lines 18-52). Times are integers counted in
  microseconds, the resolution of \<open>datetime\<close>; \<open>now\<close> is what \<open>datetime.now()\<close>
  returns when \<open>wait_if_needed\<close> is entered. The second component of the result is the
  time the caller is suspended in \<open>asyncio.sleep\<close> (0 when it is not called), taken
  to be exactly the time asked for.
\<close>

record RateLimiter =
  rpm :: int
  requests :: "int list"
  total_requests :: nat

definition new_rate_limiter :: "int \<Rightarrow> RateLimiter" where
  "new_rate_limiter requests_per_minute =
     \<lparr>rpm = requests_per_minute, requests = [], total_requests = 0\<rparr>"

definition minute :: int where
  "minute = 60000000"

definition wait_if_needed :: "RateLimiter \<Rightarrow> int \<Rightarrow> py_error + (RateLimiter \<times> int)" where
  "wait_if_needed rl now =
     (let reqs = filter (\<lambda>r. now - r < minute) (requests rl);
          rl' = rl\<lparr>requests := reqs @ [now], total_requests := total_requests rl + 1\<rparr>
      in if int (length reqs) \<ge> rpm rl
         then (case reqs of
                 [] \<Rightarrow> Inl IndexError
               | r0 # _ \<Rightarrow>
                   (let sleep_time = minute - (now - r0)
                    in if sleep_time > 0 then Inr (rl', sleep_time) else Inr (rl', 0)))
         else Inr (rl', 0))"

text \<open>
  Calls issued back-to-back through the governor: each call enters \<open>wait_if_needed\<close>,
  is issued the moment it returns, and the next one enters \<open>gap\<close> microseconds later.
  The result lists the times at which the calls were issued.
\<close>

fun issue_calls :: "RateLimiter \<Rightarrow> int \<Rightarrow> int \<Rightarrow> nat \<Rightarrow> py_error + (int list \<times> RateLimiter)" where
  "issue_calls rl t gap 0 = Inr ([], rl)"
| "issue_calls rl t gap (Suc n) =
     (case wait_if_needed rl t of
        Inl e \<Rightarrow> Inl e
      | Inr (rl', slept) \<Rightarrow>
          (case issue_calls rl' (t + slept + gap) gap n of
             Inl e \<Rightarrow> Inl e
           | Inr (ts, rl'') \<Rightarrow> Inr ((t + slept) # ts, rl'')))"

text \<open>The number of calls issued in the 60 seconds that start at \<open>w\<close>.\<close>

definition calls_in_window :: "int list \<Rightarrow> int \<Rightarrow> nat" where
  "calls_in_window ts w = length (filter (\<lambda>t. w \<le> t \<and> t < w + minute) ts)"

text \<open>The same run, read through one window.\<close>

definition window_count :: "RateLimiter \<Rightarrow> int \<Rightarrow> int \<Rightarrow> nat \<Rightarrow> int \<Rightarrow> py_error + nat" where
  "window_count rl t gap n w =
     (case issue_calls rl t gap n of
        Inl e \<Rightarrow> Inl e
      | Inr (ts, rl') \<Rightarrow> Inr (calls_in_window ts w))"

section \<open>Retry Policy\<close>

text \<open>
  \<open>RedditExtractor._api_call_with_retry\<close> (extractor.py, lines 141-172). The wrapped
  coroutine is given by what its attempt number \<open>attempt\<close> does: it returns a value
  (which may be \<open>None\<close>) or raises an exception of one of the four classes the
  \<open>except\<close> clauses tell apart.
\<close>

datatype failure = TooManyRequests | ServerError | RequestException | OtherException

datatype 'a outcome = Returns "'a option" | Raises failure

record extractor_stats =
  posts_fetched :: int
  posts_processed :: int
  comments_fetched :: int
  errors :: int
  skipped_checkpoints :: int
  rate_limit_waits :: int

definition initial_stats :: extractor_stats where
  "initial_stats = \<lparr>posts_fetched = 0, posts_processed = 0, comments_fetched = 0,
     errors = 0, skipped_checkpoints = 0, rate_limit_waits = 0\<rparr>"

text \<open>
  The \<open>for attempt in range(max_retries)\<close> loop, from \<open>attempt\<close> on. The result is the
  returned value, the statistics, and the arguments of the \<open>asyncio.sleep\<close> calls in
  order, in seconds.
\<close>

function retry_loop :: "(nat \<Rightarrow> 'a outcome) \<Rightarrow> int \<Rightarrow> nat \<Rightarrow> extractor_stats
    \<Rightarrow> 'a option \<times> extractor_stats \<times> nat list" where
  "retry_loop func max_retries attempt st =
     (if int attempt < max_retries then
        (case func attempt of
           Returns v \<Rightarrow> (v, st, [])
         | Raises TooManyRequests \<Rightarrow>
             (let wait_time = 60 * (attempt + 1);
                  (r, st', sl) = retry_loop func max_retries (attempt + 1)
                                   (st\<lparr>rate_limit_waits := rate_limit_waits st + 1\<rparr>)
              in (r, st', wait_time # sl))
         | Raises ServerError \<Rightarrow>
             (let (r, st', sl) = retry_loop func max_retries (attempt + 1) st
              in if int attempt < max_retries - 1 then (r, st', 30 # sl) else (r, st', sl))
         | Raises RequestException \<Rightarrow>
             (let (r, st', sl) = retry_loop func max_retries (attempt + 1) st
              in if int attempt < max_retries - 1 then (r, st', 2 ^ attempt # sl)
                 else (r, st', sl))
         | Raises OtherException \<Rightarrow>
             (if int attempt = max_retries - 1
              then (None, st\<lparr>errors := errors st + 1\<rparr>, [])
              else retry_loop func max_retries (attempt + 1) st))
      else (None, st, []))"
  by pat_completeness auto
termination
  by (relation "measure (\<lambda>(f, m, a, s). nat (m - int a))") auto

declare retry_loop.simps [simp del]

record 'a call_report =
  result :: "'a option"
  stats_after :: extractor_stats
  limiter_after :: "RateLimiter option"
  limiter_wait :: int
  retry_sleeps :: "nat list"

text \<open>
  The whole call: the governor once, when there is one, then the attempts. An exception
  of the governor is not caught here.
\<close>

definition api_call_with_retry :: "RateLimiter option \<Rightarrow> extractor_stats \<Rightarrow> int
    \<Rightarrow> (nat \<Rightarrow> 'a outcome) \<Rightarrow> int \<Rightarrow> py_error + 'a call_report" where
  "api_call_with_retry rate_limiter st now func max_retries =
     (case (case rate_limiter of
              None \<Rightarrow> Inr (None, 0)
            | Some rl \<Rightarrow> (case wait_if_needed rl now of
                           Inl e \<Rightarrow> Inl e
                         | Inr (rl', slept) \<Rightarrow> Inr (Some rl', slept))) of
        Inl e \<Rightarrow> Inl e
      | Inr (limiter, slept) \<Rightarrow>
          (let (r, st', sl) = retry_loop func max_retries 0 st
           in Inr \<lparr>result = r, stats_after = st', limiter_after = limiter,
                   limiter_wait = slept, retry_sleeps = sl\<rparr>))"

text \<open>
  The governor of an extractor is absent or the one \<open>RedditExtractor.__init__\<close> builds,
  \<open>RateLimiter()\<close>, whose ceiling is positive.
\<close>

definition limiter_ready :: "RateLimiter option \<Rightarrow> bool" where
  "limiter_ready rate_limiter = (case rate_limiter of None \<Rightarrow> True | Some rl \<Rightarrow> 0 < rpm rl)"

text \<open>Behaviours of a wrapped call, used to exercise the policy.\<close>

definition mixed_failures :: "nat \<Rightarrow> string outcome" where
  "mixed_failures a = (if a = 0 then Raises ServerError
     else if a = 1 then Raises RequestException else Raises OtherException)"

definition throttled_twice :: "nat \<Rightarrow> string outcome" where
  "throttled_twice a = (if a < 2 then Raises TooManyRequests else Returns (Some ''ok''))"

definition throttled_always :: "nat \<Rightarrow> string outcome" where
  "throttled_always a = Raises TooManyRequests"

text \<open>
  The sleeps that attempt number \<open>a\<close> (counted from 0) brings about when it fails, read
  off the four \<open>except\<close> clauses one by one: it is against this list that the run of the
  whole loop is compared.
\<close>

definition attempt_waits :: "(nat \<Rightarrow> 'a outcome) \<Rightarrow> int \<Rightarrow> nat \<Rightarrow> nat list" where
  "attempt_waits func max_retries a =
     (case func a of
        Returns v \<Rightarrow> []
      | Raises TooManyRequests \<Rightarrow> [60 * (a + 1)]
      | Raises ServerError \<Rightarrow> if int a < max_retries - 1 then [30] else []
      | Raises RequestException \<Rightarrow> if int a < max_retries - 1 then [2 ^ a] else []
      | Raises OtherException \<Rightarrow> [])"

text \<open>The number of throttled attempts among the attempts \<open>a0, ..., k - 1\<close>.\<close>

definition throttles :: "(nat \<Rightarrow> 'a outcome) \<Rightarrow> nat \<Rightarrow> nat \<Rightarrow> nat" where
  "throttles func a0 k = length (filter (\<lambda>a. func a = Raises TooManyRequests) [a0..<k])"

text \<open>An unexpected error, then a throttling signal, then a result.\<close>

definition other_then_throttled :: "nat \<Rightarrow> string outcome" where
  "other_then_throttled a = (if a = 0 then Raises OtherException
     else if a = 1 then Raises TooManyRequests else Returns (Some ''ok''))"

section \<open>Statistics snapshots\<close>

text \<open>
  \<open>RedditExtractor.get_stats\<close> (extractor.py, lines 482-492) and
  \<open>MongoLoader.get_stats\<close> (loader.py, lines 229-231) have the same body,
  \<open>return self.stats.copy()\<close>. Whether the caller can reach the component's own
  dict through the result is a matter of object identity, so dicts live in a store:
  an address is an index into the list of allocated dicts, and a component holds the
  address of its \<open>stats\<close>. The values of these dicts are integers, so a shallow copy
  shares nothing.
\<close>

type_synonym stats_dict = "(string \<times> int) list"

type_synonym dict_store = "stats_dict list"

record component =
  stats_ref :: nat

definition dict_copy :: "dict_store \<Rightarrow> nat \<Rightarrow> dict_store \<times> nat" where
  "dict_copy h a = (h @ [h ! a], length h)"

definition get_stats :: "component \<Rightarrow> dict_store \<Rightarrow> dict_store \<times> nat" where
  "get_stats c h = dict_copy h (stats_ref c)"

text \<open>A mutation of the dict at an address: any function on its contents.\<close>

definition mutate :: "dict_store \<Rightarrow> nat \<Rightarrow> (stats_dict \<Rightarrow> stats_dict) \<Rightarrow> dict_store" where
  "mutate h a f = h[a := f (h ! a)]"

text \<open>The dicts the two constructors build.\<close>

definition extractor_stats_dict :: stats_dict where
  "extractor_stats_dict = [(''posts_fetched'', 0), (''posts_processed'', 0),
     (''comments_fetched'', 0), (''errors'', 0), (''skipped_checkpoints'', 0),
     (''rate_limit_waits'', 0)]"

definition loader_stats_dict :: stats_dict where
  "loader_stats_dict = [(''posts_inserted'', 0), (''posts_updated'', 0),
     (''comments_inserted'', 0), (''comments_updated'', 0), (''errors'', 0)]"

section \<open>Extraction Engine\<close>

text \<open>The constants of config.py that the driver reads.\<close>

definition FETCH_COMMENTS :: bool where
  "FETCH_COMMENTS = True"

definition MAX_COMMENT_DEPTH :: "nat option" where
  "MAX_COMMENT_DEPTH = None"

definition DELAY_BETWEEN_POSTS :: nat where
  "DELAY_BETWEEN_POSTS = 1"

text \<open>
  A submission as the remote API presents it to the driver: its id and title, whether
  reading its attributes goes through (\<open>loads\<close>: no exception in the body of
  \<open>get_submission_data\<close>), and the flattened comment forest, \<open>None\<close> when fetching it
  raises. Of the extracted post only the two validated fields are kept.
\<close>

record submission =
  sub_id :: string
  sub_title :: string
  loads :: bool
  comment_forest :: "comment list option"

record post =
  reddit_id :: string
  title :: string

record comment_data =
  comment_reddit_id :: string
  submission_id :: string
  comment_parent_id :: string
  depth :: nat

text \<open>
  \<open>get_submission_data\<close> (lines 221-291): the record, or \<open>None\<close> and one more error
  when an attribute cannot be read or \<open>reddit_id\<close> or \<open>title\<close> is empty.
\<close>

definition get_submission_data :: "extractor_stats \<Rightarrow> submission \<Rightarrow> post option \<times> extractor_stats" where
  "get_submission_data st sub =
     (if loads sub \<and> sub_id sub \<noteq> [] \<and> sub_title sub \<noteq> []
      then (Some \<lparr>reddit_id = sub_id sub, title = sub_title sub\<rparr>, st)
      else (None, st\<lparr>errors := errors st + 1\<rparr>))"

definition get_comment_data :: "comment \<Rightarrow> string \<Rightarrow> nat \<Rightarrow> comment_data" where
  "get_comment_data c sid d =
     \<lparr>comment_reddit_id = comment_id c, submission_id = sid,
      comment_parent_id = parent_id c, depth = d\<rparr>"

text \<open>
  \<open>get_submission_comments\<close> (lines 309-379): nothing when comment fetching is off or
  the forest is empty; otherwise every comment gets its depth from the parent map and
  is kept unless it lies deeper than \<open>MAX_COMMENT_DEPTH\<close>. An exception while fetching
  is caught by the handler of lines 376-379, counted, and answered with the empty list,
  so the caller cannot tell it from a submission without comments; the third component
  of the result records that the call returned through that handler.
\<close>

definition get_submission_comments :: "extractor_stats \<Rightarrow> submission
    \<Rightarrow> comment_data list \<times> extractor_stats \<times> bool" where
  "get_submission_comments st sub =
     (if \<not> FETCH_COMMENTS then ([], st, False)
      else (case comment_forest sub of
              None \<Rightarrow> ([], st\<lparr>errors := errors st + 1\<rparr>, True)
            | Some comment_list \<Rightarrow>
                if comment_list = [] then ([], st, False)
                else (let comment_map = build_comment_map comment_list;
                          all_comments = concat (map (\<lambda>c.
                            (let d = calculate_comment_depth c comment_map
                             in if (case MAX_COMMENT_DEPTH of None \<Rightarrow> False | Some mx \<Rightarrow> d > mx)
                                then [] else [get_comment_data c (sub_id sub) d])) comment_list)
                      in (all_comments,
                          st\<lparr>comments_fetched := comments_fetched st + int (length all_comments)\<rparr>,
                          False))))"

text \<open>
  \<open>extract_posts_with_comments\<close> (lines 441-480), from the list that \<open>get_submissions\<close>
  returned. The state of a run carries, next to what the code holds and the checkpoint
  file, the trace of the steps gone through so far: an event is appended when the step
  returns. \<open>CommentsExtracted\<close> stands for a comment step that returned the comments of
  the item (possibly none), \<open>CommentsFailed\<close> for one that returned through its handler
  after a failed fetch; \<open>Checkpoint\<close> for a \<open>save\<close> that returned, \<open>SubmissionError\<close> for
  the handler of lines 473-476.
\<close>

datatype event = ExtractItem string | CommentsExtracted string | CommentsFailed string
  | Sleep nat | Checkpoint string | SubmissionError string

record run_state =
  stats :: extractor_stats
  checkpoint :: "CheckpointManager option"
  disk :: file_state
  posts_data :: "post list"
  comments_data :: "comment_data list"
  trace :: "event list"

text \<open>Lines 449-458: the fields of the item.\<close>

definition extract_item :: "submission \<Rightarrow> run_state \<Rightarrow> post option \<times> run_state" where
  "extract_item sub s =
     (case get_submission_data (stats s) sub of
        (None, st1) \<Rightarrow> (None, s\<lparr>stats := st1\<rparr>)
      | (Some post_data, st1) \<Rightarrow>
          (Some post_data,
           s\<lparr>stats := st1\<lparr>posts_processed := posts_processed st1 + 1\<rparr>,
             posts_data := posts_data s @ [post_data],
             trace := trace s @ [ExtractItem (reddit_id post_data)]\<rparr>))"

text \<open>Lines 460-467: the comments of item number \<open>idx\<close> of \<open>n\<close>, and the pause.\<close>

definition extract_comments :: "nat \<Rightarrow> nat \<Rightarrow> submission \<Rightarrow> run_state \<Rightarrow> run_state" where
  "extract_comments n idx sub s =
     (if FETCH_COMMENTS
      then (case get_submission_comments (stats s) sub of
              (submission_comments, st2, failed) \<Rightarrow>
                s\<lparr>stats := st2,
                  comments_data := comments_data s @ submission_comments,
                  trace := trace s
                    @ [if failed then CommentsFailed (sub_id sub)
                       else CommentsExtracted (sub_id sub)]
                    @ (if idx < n then [Sleep DELAY_BETWEEN_POSTS] else [])\<rparr>)
      else s)"

text \<open>
  Lines 469-476: the checkpoint. \<open>writes idx\<close> is what the file system does with the
  write of item \<open>idx\<close>, \<open>clock idx\<close> the time stamp. When \<open>save\<close> raises, the handler of
  the loop body counts an error and goes on; what \<open>save\<close> had done to the manager and to
  the file by then stays.
\<close>

definition save_checkpoint :: "(nat \<Rightarrow> string) \<Rightarrow> (nat \<Rightarrow> write_result) \<Rightarrow> nat \<Rightarrow> submission
    \<Rightarrow> post \<Rightarrow> run_state \<Rightarrow> run_state" where
  "save_checkpoint clock writes idx sub post_data s =
     (case checkpoint s of
        None \<Rightarrow> s
      | Some m \<Rightarrow>
          (let r = save m (disk s) (writes idx) (reddit_id post_data) (clock idx);
               s' = s\<lparr>checkpoint := Some (saved_manager r), disk := saved_file r\<rparr>
           in (case raised r of
                 None \<Rightarrow> s'\<lparr>trace := trace s @ [Checkpoint (reddit_id post_data)]\<rparr>
               | Some e \<Rightarrow> s'\<lparr>stats := (stats s)\<lparr>errors := errors (stats s) + 1\<rparr>,
                             trace := trace s @ [SubmissionError (sub_id sub)]\<rparr>)))"

text \<open>The body of the loop for the submission number \<open>idx\<close> of \<open>n\<close>.\<close>

definition process_submission :: "(nat \<Rightarrow> string) \<Rightarrow> (nat \<Rightarrow> write_result) \<Rightarrow> nat \<Rightarrow> nat
    \<Rightarrow> submission \<Rightarrow> run_state \<Rightarrow> run_state" where
  "process_submission clock writes n idx sub s =
     (case extract_item sub s of
        (None, s1) \<Rightarrow> s1
      | (Some post_data, s1) \<Rightarrow>
          save_checkpoint clock writes idx sub post_data (extract_comments n idx sub s1))"

fun extract_loop :: "(nat \<Rightarrow> string) \<Rightarrow> (nat \<Rightarrow> write_result) \<Rightarrow> nat \<Rightarrow> nat
    \<Rightarrow> submission list \<Rightarrow> run_state \<Rightarrow> run_state" where
  "extract_loop clock writes n idx [] s = s"
| "extract_loop clock writes n idx (sub # subs) s =
     extract_loop clock writes n (idx + 1) subs (process_submission clock writes n idx sub s)"

definition initial_run :: "extractor_stats \<Rightarrow> CheckpointManager option \<Rightarrow> file_state
    \<Rightarrow> run_state" where
  "initial_run st ck f =
     \<lparr>stats = st, checkpoint = ck, disk = f, posts_data = [], comments_data = [], trace = []\<rparr>"

definition extract_posts_with_comments :: "(nat \<Rightarrow> string) \<Rightarrow> (nat \<Rightarrow> write_result)
    \<Rightarrow> submission list \<Rightarrow> extractor_stats \<Rightarrow> CheckpointManager option \<Rightarrow> file_state
    \<Rightarrow> run_state" where
  "extract_posts_with_comments clock writes submissions st ck f =
     extract_loop clock writes (length submissions) 1 submissions (initial_run st ck f)"

text \<open>
  The points at which a run can be cut short. Inside \<open>save\<close> these are the manager and
  the file after the two updates of \<open>self.data\<close> (reached when the updates do not
  raise), and after \<open>open\<close> has truncated the file (reached unless \<open>open\<close> raises): a
  file that is empty or half written does not parse.
\<close>

definition save_points :: "CheckpointManager \<Rightarrow> file_state \<Rightarrow> write_result \<Rightarrow> string \<Rightarrow> string
    \<Rightarrow> (CheckpointManager \<times> file_state) list" where
  "save_points m f w post_id now =
     (let r = save m f w post_id now
      in if raised r = None \<or> raised r = Some OSError
         then (saved_manager r, f) # (if w = OpenFails then [] else [(saved_manager r, Unreadable)])
         else [])"

text \<open>
  Inside the body of the loop: after the fields of the item, after its comments, the
  points inside \<open>save\<close>, and the end of the body.
\<close>

definition item_points :: "(nat \<Rightarrow> string) \<Rightarrow> (nat \<Rightarrow> write_result) \<Rightarrow> nat \<Rightarrow> nat
    \<Rightarrow> submission \<Rightarrow> run_state \<Rightarrow> run_state list" where
  "item_points clock writes n idx sub s =
     (case extract_item sub s of
        (None, s1) \<Rightarrow> [s1]
      | (Some post_data, s1) \<Rightarrow>
          (let s2 = extract_comments n idx sub s1
           in [s1, s2]
              @ (case checkpoint s2 of
                   None \<Rightarrow> []
                 | Some m \<Rightarrow>
                     map (\<lambda>(m', f'). s2\<lparr>checkpoint := Some m', disk := f'\<rparr>)
                       (save_points m (disk s2) (writes idx) (reddit_id post_data) (clock idx)))
              @ [save_checkpoint clock writes idx sub post_data s2]))"

fun run_points :: "(nat \<Rightarrow> string) \<Rightarrow> (nat \<Rightarrow> write_result) \<Rightarrow> nat \<Rightarrow> nat
    \<Rightarrow> submission list \<Rightarrow> run_state \<Rightarrow> run_state list" where
  "run_points clock writes n idx [] s = []"
| "run_points clock writes n idx (sub # subs) s =
     item_points clock writes n idx sub s
     @ run_points clock writes n (idx + 1) subs (process_submission clock writes n idx sub s)"

definition reachable_points :: "(nat \<Rightarrow> string) \<Rightarrow> (nat \<Rightarrow> write_result)
    \<Rightarrow> submission list \<Rightarrow> extractor_stats \<Rightarrow> CheckpointManager option \<Rightarrow> file_state
    \<Rightarrow> run_state list" where
  "reachable_points clock writes submissions st ck f =
     initial_run st ck f
     # run_points clock writes (length submissions) 1 submissions (initial_run st ck f)"

text \<open>
  The item \<open>i\<close> has been through both steps: its fields have been extracted and its
  comment step has returned, with the comments or after a failed fetch.
\<close>

definition steps_done :: "event list \<Rightarrow> string \<Rightarrow> bool" where
  "steps_done tr i \<longleftrightarrow> ExtractItem i \<in> set tr
     \<and> (CommentsExtracted i \<in> set tr \<or> CommentsFailed i \<in> set tr)"

text \<open>
  The checkpoint state marks \<open>i\<close> as done: the manager in memory reports it as
  processed, or a manager built anew from the file does.
\<close>

definition marked_done :: "CheckpointManager option \<Rightarrow> file_state \<Rightarrow> string \<Rightarrow> bool" where
  "marked_done ck f i \<longleftrightarrow>
     (case ck of None \<Rightarrow> False | Some m \<Rightarrow> is_processed m i = Inr True)
     \<or> is_processed (init_checkpoint f) i = Inr True"

definition accounted :: "(string \<Rightarrow> bool) \<Rightarrow> run_state \<Rightarrow> bool" where
  "accounted K p \<longleftrightarrow>
     (\<forall>i. marked_done (checkpoint p) (disk p) i \<longrightarrow> K i \<or> steps_done (trace p) i)"

text \<open>
  The order the run keeps: whenever an id is checkpointed, the fields of the item have
  been extracted and its comment step has returned before.
\<close>

definition checkpoints_follow :: "event list \<Rightarrow> bool" where
  "checkpoints_follow tr = (\<forall>pre post i. tr = pre @ Checkpoint i # post
     \<longrightarrow> ExtractItem i \<in> set pre
         \<and> (CommentsExtracted i \<in> set pre \<or> CommentsFailed i \<in> set pre))"

text \<open>Three submissions; reading the second one fails.\<close>

definition three_submissions :: "submission list" where
  "three_submissions =
     [\<lparr>sub_id = ''p1'', sub_title = ''one'', loads = True,
        comment_forest = Some [\<lparr>comment_id = ''k'', parent_id = ''t3_p1''\<rparr>]\<rparr>,
      \<lparr>sub_id = ''p2'', sub_title = ''two'', loads = False, comment_forest = None\<rparr>,
      \<lparr>sub_id = ''p3'', sub_title = ''three'', loads = True, comment_forest = Some []\<rparr>]"

text \<open>One submission whose comments cannot be fetched.\<close>

definition comments_unavailable :: "submission list" where
  "comments_unavailable =
     [\<lparr>sub_id = ''p1'', sub_title = ''one'', loads = True, comment_forest = None\<rparr>]"

definition fixed_clock :: "nat \<Rightarrow> string" where
  "fixed_clock idx = ''T''"

definition all_written :: "nat \<Rightarrow> write_result" where
  "all_written idx = Written"

section \<open>Load Engine\<close>

text \<open>
  \<open>MongoLoader.load_posts\<close> and \<open>load_comments\<close> (loader.py, lines 81-170). A record
  and a stored document are dicts from field names to values; a collection is the list
  of its documents in insertion order. The store is not part of the repository: what
  \<open>bulk_write\<close> does with a list of \<open>UpdateOne(filter, {'$set': ...}, upsert=True)\<close>
  operations is modelled after MongoDB's documentation. An update merges the fields
  into the first document whose \<open>reddit_id\<close> equals the filter value, or, when there is
  none, inserts the document made of the filter's field and the fields set. The
  operations of one call are applied one after the other in list order (the order in
  which an unordered bulk write applies them is the server's; for operations on
  different keys it changes the order of the stored documents only), and an
  operation the store refuses (\<open>rejects\<close>, a property of the document) is skipped and
  reported as a write error while the others go on, as \<open>ordered=False\<close> asks. The
  store may also fail to answer a call at all (a lost connection, a timeout): \<open>avail b\<close>
  tells whether it answers the call made for batch number \<open>b\<close>. When it does not,
  \<open>bulk_write\<close> raises an exception that is not a \<open>BulkWriteError\<close> and nothing of the
  batch is taken to have been written. The generated \<open>_id\<close> field is left out.
\<close>

type_synonym 'v document = "string \<rightharpoonup> 'v"

type_synonym 'v collection = "'v document list"

datatype 'v update_op = UpdateOne 'v "'v document"

fun update_one :: "'v \<Rightarrow> 'v document \<Rightarrow> 'v collection \<Rightarrow> 'v collection" where
  "update_one k setdoc [] = [[''reddit_id'' \<mapsto> k] ++ setdoc]"
| "update_one k setdoc (d # ds) =
     (if d ''reddit_id'' = Some k then (d ++ setdoc) # ds else d # update_one k setdoc ds)"

text \<open>
  What one operation reports: a document inserted, a document changed, or a match that
  the update leaves as it is.
\<close>

datatype write_outcome = Upserted | Modified | Unchanged

definition outcome_of :: "'v \<Rightarrow> 'v document \<Rightarrow> 'v collection \<Rightarrow> write_outcome" where
  "outcome_of k setdoc coll =
     (case find (\<lambda>d. d ''reddit_id'' = Some k) coll of
        None \<Rightarrow> Upserted
      | Some d \<Rightarrow> if d ++ setdoc = d then Unchanged else Modified)"

record write_report =
  upserted_count :: nat
  modified_count :: nat
  write_errors :: nat

definition no_writes :: write_report where
  "no_writes = \<lparr>upserted_count = 0, modified_count = 0, write_errors = 0\<rparr>"

fun bulk_write :: "('v document \<Rightarrow> bool) \<Rightarrow> 'v update_op list \<Rightarrow> 'v collection \<Rightarrow> write_report
    \<Rightarrow> 'v collection \<times> write_report" where
  "bulk_write rejects [] coll rep = (coll, rep)"
| "bulk_write rejects (UpdateOne k setdoc # ops) coll rep =
     (if rejects setdoc
      then bulk_write rejects ops coll (rep\<lparr>write_errors := write_errors rep + 1\<rparr>)
      else bulk_write rejects ops (update_one k setdoc coll)
             (case outcome_of k setdoc coll of
                Upserted \<Rightarrow> rep\<lparr>upserted_count := upserted_count rep + 1\<rparr>
              | Modified \<Rightarrow> rep\<lparr>modified_count := modified_count rep + 1\<rparr>
              | Unchanged \<Rightarrow> rep))"

text \<open>
  The list comprehension that builds the operations of a batch: \<open>post['reddit_id']\<close>
  raises \<open>KeyError\<close> on a record without the field.
\<close>

fun operations :: "'v document list \<Rightarrow> py_error + 'v update_op list" where
  "operations [] = Inr []"
| "operations (post # batch) =
     (case post ''reddit_id'' of
        None \<Rightarrow> Inl KeyError
      | Some k \<Rightarrow> (case operations batch of
                    Inl e \<Rightarrow> Inl e
                  | Inr ops \<Rightarrow> Inr (UpdateOne k post # ops)))"

text \<open>The slices \<open>data[i:i + n]\<close> for \<open>i\<close> in \<open>range(0, len(data), n)\<close>, \<open>n\<close> positive.\<close>

function batches :: "nat \<Rightarrow> 'a list \<Rightarrow> 'a list list" where
  "batches n xs = (if n = 0 \<or> xs = [] then [] else take n xs # batches n (drop n xs))"
  by pat_completeness auto
termination
  by (relation "measure (\<lambda>(n, xs). length xs)") auto

declare batches.simps [simp del]

text \<open>
  The counters a load adds to, \<open>inserted\<close> and \<open>updated\<close> standing for the two counters
  of the collection being loaded.
\<close>

record load_counts =
  inserted :: int
  updated :: int
  load_errors :: int

text \<open>
  The loop over the batches, \<open>b\<close> being the number of the batch. A \<open>KeyError\<close> while
  building a batch, or a store that does not answer, leaves the inner \<open>try\<close>: the
  outer handler counts one error and the load ends there. A \<open>BulkWriteError\<close> counts
  its write errors and the loop goes on.
\<close>

fun load_batches :: "('v document \<Rightarrow> bool) \<Rightarrow> (nat \<Rightarrow> bool) \<Rightarrow> nat \<Rightarrow> 'v document list list
    \<Rightarrow> load_counts \<times> 'v collection \<Rightarrow> load_counts \<times> 'v collection" where
  "load_batches rejects avail b [] (c, coll) = (c, coll)"
| "load_batches rejects avail b (batch # rest) (c, coll) =
     (case operations batch of
        Inl e \<Rightarrow> (c\<lparr>load_errors := load_errors c + 1\<rparr>, coll)
      | Inr ops \<Rightarrow>
          if \<not> avail b then (c\<lparr>load_errors := load_errors c + 1\<rparr>, coll)
          else (case bulk_write rejects ops coll no_writes of
             (coll', rep) \<Rightarrow>
               if write_errors rep > 0
               then load_batches rejects avail (b + 1) rest
                      (c\<lparr>load_errors := load_errors c + int (write_errors rep)\<rparr>, coll')
               else load_batches rejects avail (b + 1) rest
                      (c\<lparr>inserted := inserted c + int (upserted_count rep),
                         updated := updated c + int (modified_count rep)\<rparr>, coll')))"

text \<open>
  The body shared by \<open>load_posts\<close> and \<open>load_comments\<close>. \<open>range\<close> raises \<open>ValueError\<close>
  on a step of 0, which the outer handler counts, and is empty on a negative step.
\<close>

definition load_records :: "('v document \<Rightarrow> bool) \<Rightarrow> (nat \<Rightarrow> bool) \<Rightarrow> int \<Rightarrow> 'v document list
    \<Rightarrow> load_counts \<times> 'v collection \<Rightarrow> load_counts \<times> 'v collection" where
  "load_records rejects avail batch_size records cs =
     (if records = [] then cs
      else if batch_size = 0 then (case cs of (c, coll) \<Rightarrow> (c\<lparr>load_errors := load_errors c + 1\<rparr>, coll))
      else if batch_size < 0 then cs
      else load_batches rejects avail 0 (batches (nat batch_size) records) cs)"

record loader_stats =
  posts_inserted :: int
  posts_updated :: int
  comments_inserted :: int
  comments_updated :: int
  loader_errors :: int

record 'v MongoLoader =
  batch_size :: int
  loader_stats :: loader_stats
  posts_collection :: "'v collection"
  comments_collection :: "'v collection"

definition load_posts :: "('v document \<Rightarrow> bool) \<Rightarrow> (nat \<Rightarrow> bool) \<Rightarrow> 'v MongoLoader
    \<Rightarrow> 'v document list \<Rightarrow> 'v MongoLoader" where
  "load_posts rejects avail l records =
     (case load_records rejects avail (batch_size l) records
             (\<lparr>inserted = posts_inserted (loader_stats l), updated = posts_updated (loader_stats l),
               load_errors = loader_errors (loader_stats l)\<rparr>, posts_collection l) of
        (c, coll) \<Rightarrow>
          l\<lparr>loader_stats := (loader_stats l)\<lparr>posts_inserted := inserted c,
               posts_updated := updated c, loader_errors := load_errors c\<rparr>,
            posts_collection := coll\<rparr>)"

definition load_comments :: "('v document \<Rightarrow> bool) \<Rightarrow> (nat \<Rightarrow> bool) \<Rightarrow> 'v MongoLoader
    \<Rightarrow> 'v document list \<Rightarrow> 'v MongoLoader" where
  "load_comments rejects avail l records =
     (case load_records rejects avail (batch_size l) records
             (\<lparr>inserted = comments_inserted (loader_stats l),
               updated = comments_updated (loader_stats l),
               load_errors = loader_errors (loader_stats l)\<rparr>, comments_collection l) of
        (c, coll) \<Rightarrow>
          l\<lparr>loader_stats := (loader_stats l)\<lparr>comments_inserted := inserted c,
               comments_updated := updated c, loader_errors := load_errors c\<rparr>,
            comments_collection := coll\<rparr>)"

text \<open>The number of documents of a collection stored under a key.\<close>

definition count_key :: "'v collection \<Rightarrow> 'v \<Rightarrow> nat" where
  "count_key coll k = length (filter (\<lambda>d. d ''reddit_id'' = Some k) coll)"

text \<open>
  Auxiliary functions for the proofs. \<open>merge_first\<close> is \<open>update_one\<close> without the
  insertion; \<open>apply_ops\<close> and \<open>merge_ops\<close> run a list of operations with the one and
  with the other; \<open>new_seeds\<close> lists, for the keys that a run meets and the collection
  lacks, the filter documents from which the inserted ones grow; \<open>merged\<close> is the
  overlay of the fields that a list of operations sets.
\<close>

definition doc_key :: "'v document \<Rightarrow> 'v option" where
  "doc_key d = d ''reddit_id''"

fun op_key :: "'v update_op \<Rightarrow> 'v" where
  "op_key (UpdateOne k setdoc) = k"

fun well_keyed :: "'v update_op \<Rightarrow> bool" where
  "well_keyed (UpdateOne k setdoc) = (doc_key setdoc = Some k)"

fun merge_first :: "'v \<Rightarrow> 'v document \<Rightarrow> 'v collection \<Rightarrow> 'v collection" where
  "merge_first k setdoc [] = []"
| "merge_first k setdoc (d # ds) =
     (if d ''reddit_id'' = Some k then (d ++ setdoc) # ds else d # merge_first k setdoc ds)"

fun apply_ops :: "'v update_op list \<Rightarrow> 'v collection \<Rightarrow> 'v collection" where
  "apply_ops [] coll = coll"
| "apply_ops (UpdateOne k setdoc # ops) coll = apply_ops ops (update_one k setdoc coll)"

fun merge_ops :: "'v update_op list \<Rightarrow> 'v collection \<Rightarrow> 'v collection" where
  "merge_ops [] coll = coll"
| "merge_ops (UpdateOne k setdoc # ops) coll = merge_ops ops (merge_first k setdoc coll)"

fun new_seeds :: "'v update_op list \<Rightarrow> 'v option set \<Rightarrow> 'v collection" where
  "new_seeds [] K = []"
| "new_seeds (UpdateOne k setdoc # ops) K =
     (if Some k \<in> K then new_seeds ops K
      else [''reddit_id'' \<mapsto> k] # new_seeds ops (insert (Some k) K))"

fun merged :: "'v update_op list \<Rightarrow> 'v document" where
  "merged [] = Map.empty"
| "merged (UpdateOne k setdoc # ops) = setdoc ++ merged ops"

text \<open>
  The operations that a load gets written: those of the batches before the first one
  that cannot be built or that the store does not answer, without the ones the store
  refuses.
\<close>

fun refused :: "('v document \<Rightarrow> bool) \<Rightarrow> 'v update_op \<Rightarrow> bool" where
  "refused rejects (UpdateOne k setdoc) = rejects setdoc"

fun written :: "('v document \<Rightarrow> bool) \<Rightarrow> (nat \<Rightarrow> bool) \<Rightarrow> nat \<Rightarrow> 'v document list list
    \<Rightarrow> 'v update_op list" where
  "written rejects avail b [] = []"
| "written rejects avail b (batch # rest) =
     (case operations batch of
        Inl e \<Rightarrow> []
      | Inr ops \<Rightarrow>
          if \<not> avail b then []
          else filter (\<lambda>op. \<not> refused rejects op) ops @ written rejects avail (b + 1) rest)"

definition stored_ops :: "('v document \<Rightarrow> bool) \<Rightarrow> (nat \<Rightarrow> bool) \<Rightarrow> int \<Rightarrow> 'v document list
    \<Rightarrow> 'v update_op list" where
  "stored_ops rejects avail n records =
     (if records = [] \<or> n \<le> 0 then []
      else written rejects avail 0 (batches (nat n) records))"

text \<open>
  A store that refuses nothing and always answers; a loader whose posts collection
  holds two documents under the key \<open>a\<close>, as a collection may when the unique index
  could not be built (\<open>_create_indexes\<close> only logs a warning then); and loaders with
  empty collections, with batches of one record and with a batch size of 0.
\<close>

definition refuses_none :: "string document \<Rightarrow> bool" where
  "refuses_none d = False"

definition always_up :: "nat \<Rightarrow> bool" where
  "always_up b = True"

text \<open>A store that refuses every document, and one that never answers.\<close>

definition refuses_all :: "string document \<Rightarrow> bool" where
  "refuses_all d = True"

definition never_up :: "nat \<Rightarrow> bool" where
  "never_up b = False"

definition no_stats :: loader_stats where
  "no_stats = \<lparr>posts_inserted = 0, posts_updated = 0, comments_inserted = 0,
     comments_updated = 0, loader_errors = 0\<rparr>"

definition twice_stored :: "string MongoLoader" where
  "twice_stored = \<lparr>batch_size = 100, loader_stats = no_stats,
     posts_collection = [[''reddit_id'' \<mapsto> ''a'', ''title'' \<mapsto> ''old''],
                         [''reddit_id'' \<mapsto> ''a'', ''title'' \<mapsto> ''older'']],
     comments_collection = []\<rparr>"

definition fresh_loader :: "int \<Rightarrow> string MongoLoader" where
  "fresh_loader n = \<lparr>batch_size = n, loader_stats = no_stats, posts_collection = [],
     comments_collection = []\<rparr>"

definition two_records :: "string document list" where
  "two_records = [[''reddit_id'' \<mapsto> ''a'', ''title'' \<mapsto> ''new''],
                  [''reddit_id'' \<mapsto> ''b'', ''title'' \<mapsto> ''other'']]"

section \<open>Properties of the Depth Resolver\<close>

lemma depth_loop_le: "depth_loop m c d \<le> max d max_iterations"
proof (induction m c d rule: depth_loop.induct)
  case (1 m c d)
  show ?case
    using 1 by (subst depth_loop.simps) (auto split: option.splits)
qed

lemma depth_loop_count_fst: "fst (depth_loop_count m c d i) = depth_loop m c d"
proof (induction m c d i rule: depth_loop_count.induct)
  case (1 m c d i)
  show ?case
    using 1 by (subst depth_loop_count.simps, subst depth_loop.simps) (auto split: option.splits)
qed

lemma depth_loop_count_snd:
  "d \<le> max_iterations \<Longrightarrow> snd (depth_loop_count m c d i) \<le> i + (max_iterations - d)"
proof (induction m c d i rule: depth_loop_count.induct)
  case (1 m c d i)
  show ?case
    using 1 by (subst depth_loop_count.simps) (auto split: option.splits)
qed

lemma depth_loop_missing:
  "m (replace_str ''t1_'' [] c) = None \<Longrightarrow> depth_loop m c d = d"
  by (subst depth_loop.simps) simp

lemma startswith_t1: "startswith s ''t1_'' \<longleftrightarrow> take 3 s = ''t1_''"
  by (simp add: startswith_def numeral_3_eq_3)

lemma replace_str_plain:
  "CHR ''_'' \<notin> set s \<Longrightarrow> replace_str ''t1_'' [] s = s"
proof (induction s)
  case Nil
  then show ?case by simp
next
  case (Cons c cs)
  have "\<not> startswith (c # cs) ''t1_''"
  proof
    assume "startswith (c # cs) ''t1_''"
    then have "take 3 (c # cs) = ''t1_''" by (simp only: startswith_t1)
    then have "CHR ''_'' \<in> set (take 3 (c # cs))" by simp
    then have "CHR ''_'' \<in> set (c # cs)" by (rule in_set_takeD)
    with Cons.prems show False by simp
  qed
  with Cons show ?case by simp
qed

lemma comment_ref_split: "is_comment_ref r \<Longrightarrow> r = ''t1_'' @ drop 3 r"
proof -
  assume "is_comment_ref r"
  then have "take 3 r = ''t1_''" by (simp only: is_comment_ref_def startswith_t1)
  then show ?thesis by (metis append_take_drop_id)
qed

lemma replace_str_ref:
  assumes "is_comment_ref r" and "CHR ''_'' \<notin> set (drop 3 r)"
  shows "replace_str ''t1_'' [] r = drop 3 r"
proof -
  define s where "s = drop 3 r"
  have r: "r = ''t1_'' @ s"
    unfolding s_def by (rule comment_ref_split [OF assms(1)])
  have "replace_str ''t1_'' [] (''t1_'' @ s) = replace_str ''t1_'' [] s"
    by (simp add: startswith_t1)
  also have "\<dots> = s"
    using assms(2) unfolding s_def by (rule replace_str_plain)
  finally show ?thesis
    unfolding r by simp
qed

lemma depth_loop_chain:
  assumes "parent_chain m r n" and "\<forall>k \<in> dom m. CHR ''_'' \<notin> set k"
    and "d \<le> max_iterations"
  shows "depth_loop m r d = min (d + n) max_iterations"
  using assms
proof (induction arbitrary: d rule: parent_chain.induct)
  case (at_item r m)
  then show ?case
    by (subst depth_loop.simps) (simp add: is_comment_ref_def)
next
  case (via_comment r m p n)
  have key: "replace_str ''t1_'' [] r = drop 3 r"
    using via_comment.hyps(1,2) via_comment.prems(1) by (intro replace_str_ref) auto
  have ne: "r \<noteq> []" using via_comment.hyps(1) by (auto simp: is_comment_ref_def startswith_def)
  show ?case
  proof (cases "d < max_iterations")
    case True
    then have "depth_loop m r d = depth_loop m p (d + 1)"
      using via_comment.hyps(1,2) key ne
      by (subst depth_loop.simps) (simp add: is_comment_ref_def)
    also have "\<dots> = min (d + 1 + n) max_iterations"
      using True via_comment.prems by (intro via_comment.IH) auto
    finally show ?thesis by simp
  next
    case False
    then show ?thesis using via_comment.prems
      by (subst depth_loop.simps) simp
  qed
qed

lemma build_comment_map_fold:
  "fold (\<lambda>c m. m(comment_id c \<mapsto> parent_id c)) cs m0 =
     m0 ++ map_of (rev (map (\<lambda>c. (comment_id c, parent_id c)) cs))"
  by (induction cs arbitrary: m0) (auto simp: map_add_upd_left fun_eq_iff map_add_def split: option.splits)

lemma dom_build_comment_map: "dom (build_comment_map cs) = comment_id ` set cs"
  by (simp add: build_comment_map_def build_comment_map_fold dom_map_of_conv_image_fst image_image)

lemma nm_inj: "nm i = nm j \<longleftrightarrow> i = j"
proof (induction i arbitrary: j)
  case 0
  then show ?case by (cases j) auto
next
  case (Suc i)
  then show ?case by (cases j) auto
qed

lemma nm_plain: "CHR ''_'' \<notin> set (nm k)"
  by (induction k) auto

lemma thread_ids: "c \<in> set (thread k) \<Longrightarrow> \<exists>i \<le> k. comment_id c = nm i"
proof (induction k)
  case 0
  then show ?case by auto
next
  case (Suc k)
  then show ?case by (auto intro: exI [of _ "Suc k"] le_SucI)
qed

lemma nm_not_in_thread: "k < j \<Longrightarrow> nm j \<notin> comment_id ` set (thread k)"
proof
  assume "k < j" and "nm j \<in> comment_id ` set (thread k)"
  then obtain c where "c \<in> set (thread k)" and "comment_id c = nm j" by auto
  then obtain i where "i \<le> k" and "nm i = nm j" using thread_ids by metis
  then show False using \<open>k < j\<close> by (simp add: nm_inj)
qed

lemma thread_lookup:
  "j \<le> k \<Longrightarrow> build_comment_map (thread k) (nm j) =
     Some (if j = 0 then ''t3_post'' else ''t1_'' @ nm (j - 1))"
proof (induction k)
  case 0
  then show ?case by (simp add: build_comment_map_def)
next
  case (Suc k)
  show ?case
  proof (cases "j = Suc k")
    case True
    have "nm (Suc k) \<notin> dom (build_comment_map (thread k))"
      using nm_not_in_thread [of k "Suc k"] by (simp add: dom_build_comment_map)
    then have "build_comment_map (thread k) (nm (Suc k)) = None" by blast
    then show ?thesis using True
      by (simp add: build_comment_map_def build_comment_map_fold map_add_def)
  next
    case False
    with Suc.prems have "j \<le> k" by simp
    from Suc.IH [OF this] show ?thesis
      by (simp add: build_comment_map_def build_comment_map_fold map_add_def)
  qed
qed

lemma thread_chain:
  "j \<le> k \<Longrightarrow> parent_chain (build_comment_map (thread k)) (''t1_'' @ nm j) (Suc j)"
proof (induction j)
  case 0
  have root: "parent_chain (build_comment_map (thread k)) ''t3_post'' 0"
    by (rule at_item) (simp add: is_comment_ref_def startswith_t1)
  have ref: "is_comment_ref (''t1_'' @ nm 0)"
    by (simp add: is_comment_ref_def startswith_t1)
  have "build_comment_map (thread k) (drop 3 (''t1_'' @ nm 0)) = Some ''t3_post''"
    using thread_lookup [of 0 k] by simp
  from via_comment [OF ref this root] show ?case .
next
  case (Suc j)
  then have prev: "parent_chain (build_comment_map (thread k)) (''t1_'' @ nm j) (Suc j)"
    by simp
  have ref: "is_comment_ref (''t1_'' @ nm (Suc j))"
    by (simp add: is_comment_ref_def startswith_t1)
  have "build_comment_map (thread k) (drop 3 (''t1_'' @ nm (Suc j))) = Some (''t1_'' @ nm j)"
    using thread_lookup [of "Suc j" k] Suc.prems by simp
  from via_comment [OF ref this prev] show ?case .
qed

lemma thread_plain: "\<forall>c \<in> set (thread k). CHR ''_'' \<notin> set (comment_id c)"
  by (induction k) (auto simp: nm_plain)

lemma cyclic_map_zz: "cyclic_map ''zz'' = None"
  by (simp add: cyclic_map_def build_comment_map_def)

lemma replace_zz: "replace_str ''t1_'' [] ''t1_zz'' = ''zz''"
  by (simp add: startswith_t1)

text \<open>
  Claim C4. For every comment and every parent map, cyclic or corrupted ones included,
  the resolver returns (the loop is a total function), it runs its body at most 50
  times, and the depth it returns is a natural number of at most 50. When the current
  reference names a comment that the map does not hold, the depth accumulated so far
  is the result.
\<close>

theorem depth_resolver_bounded:
  "calculate_comment_depth c m \<le> 50
   \<and> fst (depth_loop_count m (parent_id c) 0 0) = calculate_comment_depth c m
   \<and> snd (depth_loop_count m (parent_id c) 0 0) \<le> 50
   \<and> (startswith r ''t1_'' \<and> m (replace_str ''t1_'' [] r) = None \<longrightarrow> depth_loop m r d = d)"
proof -
  have "calculate_comment_depth c m \<le> 50"
    using depth_loop_le [of m "parent_id c" 0]
    by (simp add: calculate_comment_depth_def max_iterations_def)
  moreover have "fst (depth_loop_count m (parent_id c) 0 0) = calculate_comment_depth c m"
    by (simp add: depth_loop_count_fst calculate_comment_depth_def)
  moreover have "snd (depth_loop_count m (parent_id c) 0 0) \<le> 50"
    using depth_loop_count_snd [of 0 m "parent_id c" 0] by (simp add: max_iterations_def)
  moreover have "m (replace_str ''t1_'' [] r) = None \<longrightarrow> depth_loop m r d = d"
    by (simp add: depth_loop_missing)
  ultimately show ?thesis by blast
qed

text \<open>The same on a two-comment cycle, and on a reference to the absent comment \<open>zz\<close>.\<close>

theorem depth_resolver_bounded_witness:
  "calculate_comment_depth \<lparr>comment_id = ''a'', parent_id = ''t1_b''\<rparr> cyclic_map \<le> 50
   \<and> snd (depth_loop_count cyclic_map ''t1_b'' 0 0) \<le> 50
   \<and> startswith ''t1_zz'' ''t1_'' \<and> cyclic_map (replace_str ''t1_'' [] ''t1_zz'') = None
   \<and> depth_loop cyclic_map ''t1_zz'' 7 = 7"
proof -
  have h: "startswith ''t1_zz'' ''t1_'' \<and> cyclic_map (replace_str ''t1_'' [] ''t1_zz'') = None"
    by (simp add: startswith_t1 replace_zz cyclic_map_zz)
  show ?thesis
    using h depth_resolver_bounded [of "\<lparr>comment_id = ''a'', parent_id = ''t1_b''\<rparr>" cyclic_map "''t1_zz''" 7]
    by (simp del: replace_str.simps)
qed

text \<open>
  Claim C3, as the code has it. In a collection whose comment ids hold no underscore
  (Reddit ids are base-36), when the parent chain of a comment reaches the item after
  \<open>n\<close> comment links, the computed depth is \<open>n\<close> capped at the iteration ceiling,
  \<open>min n 50\<close>; a comment whose direct parent is the item gets depth 0.
\<close>

theorem depth_resolver_forest:
  assumes "\<forall>x \<in> set comment_list. CHR ''_'' \<notin> set (comment_id x)"
    and "parent_chain (build_comment_map comment_list) (parent_id c) n"
  shows "calculate_comment_depth c (build_comment_map comment_list) = min n 50
    \<and> (n = 0 \<longrightarrow> calculate_comment_depth c (build_comment_map comment_list) = 0)"
proof -
  have "\<forall>k \<in> dom (build_comment_map comment_list). CHR ''_'' \<notin> set k"
    using assms(1) by (auto simp: dom_build_comment_map)
  from depth_loop_chain [OF assms(2) this, of 0]
  show ?thesis by (simp add: calculate_comment_depth_def max_iterations_def)
qed

text \<open>A reply to the second comment of a two-comment thread has depth 2.\<close>

theorem depth_resolver_forest_witness:
  "parent_chain (build_comment_map (thread 1)) (''t1_'' @ nm 1) 2
   \<and> calculate_comment_depth \<lparr>comment_id = ''r'', parent_id = ''t1_'' @ nm 1\<rparr>
        (build_comment_map (thread 1)) = 2"
proof -
  have h1: "\<forall>x \<in> set (thread 1). CHR ''_'' \<notin> set (comment_id x)"
    by (rule thread_plain)
  have h2: "parent_chain (build_comment_map (thread 1))
      (parent_id \<lparr>comment_id = ''r'', parent_id = ''t1_'' @ nm 1\<rparr>) 2"
    using thread_chain [of 1 1] by (simp add: numeral_2_eq_2)
  from depth_resolver_forest [OF h1 h2] h2 show ?thesis by simp
qed

text \<open>
  Claim C3 as stated fails beyond the ceiling: the reply to the last comment of a
  51-comment thread has a parent chain of length 51, and the resolver returns 50.
\<close>

theorem depth_resolver_deep_thread:
  "parent_chain (build_comment_map (thread 50)) (''t1_'' @ nm 50) 51
   \<and> calculate_comment_depth \<lparr>comment_id = nm 51, parent_id = ''t1_'' @ nm 50\<rparr>
        (build_comment_map (thread 50)) = 50"
proof -
  have chain: "parent_chain (build_comment_map (thread 50)) (''t1_'' @ nm 50) (Suc 50)"
    by (rule thread_chain) simp
  have "\<forall>k \<in> dom (build_comment_map (thread 50)). CHR ''_'' \<notin> set k"
    using thread_plain [of 50] by (auto simp: dom_build_comment_map)
  from depth_loop_chain [OF chain this, of 0] chain
  show ?thesis by (simp add: calculate_comment_depth_def max_iterations_def)
qed

section \<open>Properties of the Checkpoint Store\<close>

lemma processed_posts_empty: "processed_posts empty_checkpoint = Inr (JList [])"
  by (simp add: processed_posts_def empty_checkpoint_def)

lemma processed_posts_after:
  "processed_posts (JObj (AList.update ''last_run'' v
       (AList.update ''processed_posts'' (JList ys) kvs))) = Inr (JList ys)"
  by (simp add: processed_posts_def update_conv')

text \<open>
  Claim C8. When the checkpoint file is missing, or is there but cannot be opened or
  parsed, initialisation completes with the empty state
  \<open>{processed_posts: [], last_run: null}\<close>, and \<open>is_processed\<close> answers false for
  every id.
\<close>

theorem checkpoint_load_failure:
  assumes "f = Missing \<or> f = Unreadable"
  shows "data (init_checkpoint f) = JObj [(''processed_posts'', JList []), (''last_run'', JNull)]
     \<and> is_processed (init_checkpoint f) post_id = Inr False"
  using assms
  by (auto simp: init_checkpoint_def load_def is_processed_def processed_posts_def
      empty_checkpoint_def)

theorem checkpoint_load_failure_witness:
  "data (init_checkpoint Unreadable) = JObj [(''processed_posts'', JList []), (''last_run'', JNull)]
     \<and> is_processed (init_checkpoint Unreadable) ''abc'' = Inr False"
  using checkpoint_load_failure [of Unreadable "''abc''"] by simp

section \<open>Marking an id as processed\<close>

lemma shaped_dict:
  assumes "processed_posts (data m) = Inr (JList xs)"
  obtains kvs where "data m = JObj kvs" and "map_of kvs ''processed_posts'' = Some (JList xs)"
  using assms by (auto simp: processed_posts_def split: json.splits option.splits)

lemma save_memory:
  assumes "processed_posts (data m) = Inr (JList xs)"
  shows "processed_posts (data (saved_manager (save m f w post_id now)))
     = Inr (JList (xs @ [JStr post_id]))"
proof -
  from assms obtain kvs where "data m = JObj kvs"
    and "map_of kvs ''processed_posts'' = Some (JList xs)"
    by (rule shaped_dict)
  then show ?thesis
    by (cases w) (simp_all add: save_def processed_posts_def Let_def update_conv')
qed

lemma save_file:
  assumes "processed_posts (data m) = Inr (JList xs)"
  shows "saved_file (save m f w post_id now)
     = (case w of Written \<Rightarrow> Contents (data (saved_manager (save m f w post_id now)))
        | OpenFails \<Rightarrow> f | DumpFails \<Rightarrow> Unreadable)"
    and "raised (save m f w post_id now) = (case w of Written \<Rightarrow> None | _ \<Rightarrow> Some OSError)"
proof -
  from assms obtain kvs where "data m = JObj kvs"
    and "map_of kvs ''processed_posts'' = Some (JList xs)"
    by (rule shaped_dict)
  then show "saved_file (save m f w post_id now)
     = (case w of Written \<Rightarrow> Contents (data (saved_manager (save m f w post_id now)))
        | OpenFails \<Rightarrow> f | DumpFails \<Rightarrow> Unreadable)"
    and "raised (save m f w post_id now) = (case w of Written \<Rightarrow> None | _ \<Rightarrow> Some OSError)"
    by (cases w; simp add: save_def processed_posts_def Let_def)+
qed

text \<open>
  Claim C2, as the code has it. On a checkpoint state of the stored shape (a dict whose
  \<open>processed_posts\<close> is a list), \<open>save\<close> appends exactly one entry for the id, so
  saving the same id twice leaves two entries of it. Right after a \<open>save\<close> the id is
  reported as processed, also when writing the file raised. \<open>save\<close> returns without
  raising exactly when the file has been written, and then the id is still reported as
  processed after the store is loaded again from the file, after one save as after two.
\<close>

theorem checkpoint_mark:
  assumes "processed_posts (data m) = Inr (JList xs)"
    and "r = save m f w post_id now"
    and "r' = save (saved_manager r) (saved_file r) w' post_id now'"
  shows "processed_list (saved_manager r) = xs @ [JStr post_id]
     \<and> is_processed (saved_manager r) post_id = Inr True
     \<and> (raised r = None \<longleftrightarrow> w = Written)
     \<and> (raised r = None
          \<longrightarrow> is_processed (init_checkpoint (saved_file r)) post_id = Inr True)
     \<and> (w = OpenFails \<longrightarrow> raised r = Some OSError \<and> saved_file r = f)
     \<and> (w = DumpFails \<longrightarrow> raised r = Some OSError \<and> saved_file r = Unreadable)
     \<and> processed_list (saved_manager r') = xs @ [JStr post_id, JStr post_id]
     \<and> (raised r' = None
          \<longrightarrow> is_processed (init_checkpoint (saved_file r')) post_id = Inr True)"
proof -
  have m1: "processed_posts (data (saved_manager r)) = Inr (JList (xs @ [JStr post_id]))"
    unfolding assms(2) by (rule save_memory [OF assms(1)])
  have m2: "processed_posts (data (saved_manager r'))
      = Inr (JList ((xs @ [JStr post_id]) @ [JStr post_id]))"
    unfolding assms(3) by (rule save_memory [OF m1])
  have f1: "saved_file r = (case w of Written \<Rightarrow> Contents (data (saved_manager r))
        | OpenFails \<Rightarrow> f | DumpFails \<Rightarrow> Unreadable)"
    and e1: "raised r = (case w of Written \<Rightarrow> None | _ \<Rightarrow> Some OSError)"
    unfolding assms(2) by (rule save_file [OF assms(1)])+
  have f2: "saved_file r' = (case w' of Written \<Rightarrow> Contents (data (saved_manager r'))
        | OpenFails \<Rightarrow> saved_file r | DumpFails \<Rightarrow> Unreadable)"
    and e2: "raised r' = (case w' of Written \<Rightarrow> None | _ \<Rightarrow> Some OSError)"
    unfolding assms(3) by (rule save_file [OF m1])+
  have a: "processed_list (saved_manager r) = xs @ [JStr post_id]"
    using m1 by (simp add: processed_list_def)
  have b: "is_processed (saved_manager r) post_id = Inr True"
    using m1 by (simp add: is_processed_def)
  have c: "raised r = None \<longleftrightarrow> w = Written"
    using e1 by (cases w) simp_all
  have d: "is_processed (init_checkpoint (saved_file r)) post_id = Inr True" if "raised r = None"
  proof -
    from that c have "w = Written" by simp
    with f1 m1 show ?thesis
      by (simp add: is_processed_def init_checkpoint_def load_def)
  qed
  have e: "w = OpenFails \<longrightarrow> raised r = Some OSError \<and> saved_file r = f"
    using e1 f1 by simp
  have g: "w = DumpFails \<longrightarrow> raised r = Some OSError \<and> saved_file r = Unreadable"
    using e1 f1 by simp
  have h: "processed_list (saved_manager r') = xs @ [JStr post_id, JStr post_id]"
    using m2 by (simp add: processed_list_def)
  have i: "is_processed (init_checkpoint (saved_file r')) post_id = Inr True"
    if "raised r' = None"
  proof -
    from that e2 have "w' = Written" by (cases w') simp_all
    with f2 m2 show ?thesis
      by (simp add: is_processed_def init_checkpoint_def load_def)
  qed
  from a b c d e g h i show ?thesis by blast
qed

text \<open>Marking \<open>abc\<close> on a fresh store, the file being written.\<close>

theorem checkpoint_mark_witness:
  "processed_list (saved_manager (save (init_checkpoint Missing) Missing Written ''abc'' ''t1''))
     = [JStr ''abc'']
   \<and> is_processed (saved_manager (save (init_checkpoint Missing) Missing Written ''abc'' ''t1''))
        ''abc'' = Inr True
   \<and> raised (save (init_checkpoint Missing) Missing Written ''abc'' ''t1'') = None
   \<and> is_processed (init_checkpoint
        (saved_file (save (init_checkpoint Missing) Missing Written ''abc'' ''t1''))) ''abc''
       = Inr True"
proof -
  have h: "processed_posts (data (init_checkpoint Missing)) = Inr (JList [])"
    by (simp add: init_checkpoint_def load_def processed_posts_empty)
  from checkpoint_mark [OF h refl refl, of Missing Written "''abc''" "''t1''" Written "''t2''"]
  show ?thesis by simp
qed

text \<open>
  Claim C2 as stated fails: marking \<open>abc\<close> twice on a fresh store, both writes going
  through, leaves the id twice in the processed list.
\<close>

theorem checkpoint_mark_twice_duplicates:
  "save (init_checkpoint Missing) Missing Written ''abc'' ''t1''
     = \<lparr>raised = None,
        saved_manager = \<lparr>data = JObj [(''processed_posts'', JList [JStr ''abc'']),
                                      (''last_run'', JStr ''t1'')]\<rparr>,
        saved_file = Contents (JObj [(''processed_posts'', JList [JStr ''abc'']),
                                     (''last_run'', JStr ''t1'')])\<rparr>
   \<and> save \<lparr>data = JObj [(''processed_posts'', JList [JStr ''abc'']), (''last_run'', JStr ''t1'')]\<rparr>
        (Contents (JObj [(''processed_posts'', JList [JStr ''abc'']), (''last_run'', JStr ''t1'')]))
        Written ''abc'' ''t2''
     = \<lparr>raised = None,
        saved_manager = \<lparr>data = JObj [(''processed_posts'', JList [JStr ''abc'', JStr ''abc'']),
                                      (''last_run'', JStr ''t2'')]\<rparr>,
        saved_file = Contents (JObj [(''processed_posts'', JList [JStr ''abc'', JStr ''abc'']),
                                     (''last_run'', JStr ''t2'')])\<rparr>
   \<and> \<not> distinct (processed_list
        \<lparr>data = JObj [(''processed_posts'', JList [JStr ''abc'', JStr ''abc'']),
                      (''last_run'', JStr ''t2'')]\<rparr>)"
  by (simp add: save_def init_checkpoint_def load_def empty_checkpoint_def processed_posts_def
      processed_list_def Let_def)

section \<open>Properties of the Rate Governor\<close>

text \<open>
  Claim C1 is what the class documents (the number of requests does not exceed the limit
  within a one-minute timeframe), and the code misses it: \<open>wait_if_needed\<close> records
  the time at which it was entered, not the time at which the call is issued after the
  sleep, and it does not look at the window again after sleeping. With a ceiling of 2,
  five calls issued back-to-back from time 0 go out at 0, 0, 60 s, 60 s and 60 s: three
  calls in the window that starts at 60 s. With the default ceiling of 60, 121 calls
  put 61 calls in that window.
\<close>

theorem rate_governor_burst:
  "issue_calls (new_rate_limiter 2) 0 0 5
     = Inr ([0, 0, 60000000, 60000000, 60000000],
            \<lparr>rpm = 2, requests = [60000000, 60000000], total_requests = 5\<rparr>)
   \<and> calls_in_window [0, 0, 60000000, 60000000, 60000000] 60000000 = 3
   \<and> window_count (new_rate_limiter 60) 0 0 121 60000000 = Inr 61"
proof -
  have "issue_calls (new_rate_limiter 2) 0 0 5
     = Inr ([0, 0, 60000000, 60000000, 60000000],
            \<lparr>rpm = 2, requests = [60000000, 60000000], total_requests = 5\<rparr>)"
    by (simp add: new_rate_limiter_def wait_if_needed_def minute_def numeral_eq_Suc)
  moreover have "calls_in_window [0, 0, 60000000, 60000000, 60000000] 60000000 = 3"
    by (simp add: calls_in_window_def minute_def)
  moreover have "window_count (new_rate_limiter 60) 0 0 121 60000000 = Inr 61"
    by code_simp
  ultimately show ?thesis by blast
qed

section \<open>Properties of the Retry Policy\<close>

lemma wait_if_needed_ok:
  "0 < rpm rl \<Longrightarrow> \<exists>rl' s. wait_if_needed rl now = Inr (rl', s) \<and> 0 \<le> s"
  by (cases "filter (\<lambda>r. now - r < minute) (requests rl)")
     (auto simp: wait_if_needed_def Let_def)

lemma retry_all_fail:
  assumes "\<forall>a. int a < max_retries \<longrightarrow> (\<exists>f. func a = Raises f)"
  shows "fst (retry_loop func max_retries attempt st) = None"
proof (induction "nat (max_retries - int attempt)" arbitrary: attempt st)
  case 0
  then have "\<not> int attempt < max_retries" by simp
  then show ?case by (subst retry_loop.simps) simp
next
  case (Suc n)
  then have lt: "int attempt < max_retries" by simp
  then obtain f where f: "func attempt = Raises f" using assms by blast
  have "n = nat (max_retries - int (attempt + 1))" using Suc.hyps(2) by simp
  then have IH: "\<And>st'. fst (retry_loop func max_retries (attempt + 1) st') = None"
    using Suc.hyps(1) by blast
  show ?case
    using lt f IH
    by (subst retry_loop.simps) (cases f; simp add: Let_def case_prod_beta)
qed

lemma retry_throttled:
  assumes "int k < max_retries" and "\<forall>a < k. func a = Raises TooManyRequests"
    and "func k = Returns v"
  shows "attempt \<le> k \<Longrightarrow> retry_loop func max_retries attempt st =
     (v, st\<lparr>rate_limit_waits := rate_limit_waits st + int (k - attempt)\<rparr>,
      map (\<lambda>a. 60 * (a + 1)) [attempt..<k])"
proof (induction "k - attempt" arbitrary: attempt st)
  case 0
  then have "attempt = k" by simp
  then show ?case using assms(1,3)
    by (subst retry_loop.simps) simp
next
  case (Suc n)
  then have lt: "attempt < k" by simp
  then have f: "func attempt = Raises TooManyRequests" using assms(2) by blast
  have lt': "int attempt < max_retries" using lt assms(1) by simp
  have "n = k - Suc attempt" using Suc.hyps(2) by simp
  then have IH: "\<And>st'. retry_loop func max_retries (Suc attempt) st' =
     (v, st'\<lparr>rate_limit_waits := rate_limit_waits st' + int (k - Suc attempt)\<rparr>,
      map (\<lambda>a. 60 * (a + 1)) [Suc attempt..<k])"
    using Suc.hyps(1) lt by simp
  have upt: "[attempt..<k] = attempt # [Suc attempt..<k]"
    using lt by (simp add: upt_conv_Cons)
  have cnt: "int (k - attempt) = 1 + int (k - Suc attempt)" using lt by simp
  show ?case
    using lt' f
    by (subst retry_loop.simps) (simp add: Let_def IH upt cnt del: upt.simps)
qed

lemma retry_all_throttled:
  assumes "\<forall>a. int a < max_retries \<longrightarrow> func a = Raises TooManyRequests"
  shows "retry_loop func max_retries attempt st =
     (None, st\<lparr>rate_limit_waits := rate_limit_waits st + int (nat max_retries - attempt)\<rparr>,
      map (\<lambda>a. 60 * (a + 1)) [attempt..<nat max_retries])"
proof (induction "nat max_retries - attempt" arbitrary: attempt st)
  case 0
  then have "\<not> int attempt < max_retries" by simp
  then show ?case using 0
    by (subst retry_loop.simps) simp
next
  case (Suc n)
  then have lt: "attempt < nat max_retries" by simp
  then have lt': "int attempt < max_retries" by simp
  then have f: "func attempt = Raises TooManyRequests" using assms by blast
  have "n = nat max_retries - Suc attempt" using Suc.hyps(2) by simp
  then have IH: "\<And>st'. retry_loop func max_retries (Suc attempt) st' =
     (None, st'\<lparr>rate_limit_waits := rate_limit_waits st' + int (nat max_retries - Suc attempt)\<rparr>,
      map (\<lambda>a. 60 * (a + 1)) [Suc attempt..<nat max_retries])"
    using Suc.hyps(1) by simp
  have upt: "[attempt..<nat max_retries] = attempt # [Suc attempt..<nat max_retries]"
    using lt by (simp add: upt_conv_Cons)
  have cnt: "int (nat max_retries - attempt) = 1 + int (nat max_retries - Suc attempt)"
    using lt by simp
  show ?case
    using lt' f
    by (subst retry_loop.simps) (simp add: Let_def IH upt cnt del: upt.simps)
qed

lemma sum_throttle_waits: "sum_list (map (\<lambda>a. 60 * (a + 1)) [0..<k]) = 30 * k * (k + 1)"
  by (induction k) (simp_all add: algebra_simps)

lemma api_call_unfold:
  assumes "limiter_ready rate_limiter"
  shows "\<exists>limiter slept. 0 \<le> slept \<and>
     api_call_with_retry rate_limiter st now func max_retries =
       Inr \<lparr>result = fst (retry_loop func max_retries 0 st),
            stats_after = fst (snd (retry_loop func max_retries 0 st)),
            limiter_after = limiter, limiter_wait = slept,
            retry_sleeps = snd (snd (retry_loop func max_retries 0 st))\<rparr>"
proof (cases rate_limiter)
  case None
  then show ?thesis
    by (simp add: api_call_with_retry_def case_prod_beta)
next
  case (Some rl)
  with assms have "0 < rpm rl" by (simp add: limiter_ready_def)
  from wait_if_needed_ok [OF this, of now]
  obtain rl' s where "wait_if_needed rl now = Inr (rl', s)" and "0 \<le> s" by blast
  with Some show ?thesis
    by (simp add: api_call_with_retry_def case_prod_beta)
qed

text \<open>
  Claim C5. When every one of the \<open>max_retries\<close> attempts raises, whatever the class
  of each failure, the call returns \<open>None\<close> and raises nothing. The governor in front
  of the attempts is the one the extractor builds, with a positive ceiling.
\<close>

theorem retry_exhaustion:
  assumes "limiter_ready rate_limiter"
    and "\<forall>a. int a < max_retries \<longrightarrow> (\<exists>f. func a = Raises f)"
  shows "\<exists>rep. api_call_with_retry rate_limiter st now func max_retries = Inr rep
     \<and> result rep = None"
proof -
  from api_call_unfold [OF assms(1), of st now func max_retries]
  obtain rep where "api_call_with_retry rate_limiter st now func max_retries = Inr rep"
    and "result rep = fst (retry_loop func max_retries 0 st)"
    by force
  then show ?thesis using retry_all_fail [OF assms(2), of 0 st] by simp
qed

text \<open>Three attempts failing with a server error, a request error and another error.\<close>

theorem retry_exhaustion_witness:
  "\<exists>rep. api_call_with_retry (Some (new_rate_limiter 60)) initial_stats 0 mixed_failures 3 = Inr rep
     \<and> result rep = None"
proof -
  have h1: "limiter_ready (Some (new_rate_limiter 60))"
    by (simp add: limiter_ready_def new_rate_limiter_def)
  have h2: "\<forall>a. int a < 3 \<longrightarrow> (\<exists>f. mixed_failures a = Raises f)"
    by (simp add: mixed_failures_def)
  from retry_exhaustion [OF h1 h2] show ?thesis .
qed

section \<open>Backoff of the Retry Policy\<close>

lemma retry_failing_prefix:
  assumes "int k < max_retries" and "\<forall>a < k. \<exists>f. func a = Raises f" and "func k = Returns v"
  shows "attempt \<le> k \<Longrightarrow> retry_loop func max_retries attempt st =
     (v, st\<lparr>rate_limit_waits := rate_limit_waits st + int (throttles func attempt k)\<rparr>,
      concat (map (attempt_waits func max_retries) [attempt..<k]))"
proof (induction "k - attempt" arbitrary: attempt st)
  case 0
  then have "attempt = k" by simp
  then show ?case using assms(1,3)
    by (subst retry_loop.simps) (simp add: throttles_def)
next
  case (Suc n)
  then have lt: "attempt < k" by simp
  then obtain f where f: "func attempt = Raises f" using assms(2) by blast
  have lt': "int attempt < max_retries" and notlast: "int attempt < max_retries - 1"
    and notlast': "int attempt \<noteq> max_retries - 1"
    using lt assms(1) by simp_all
  have "n = k - Suc attempt" using Suc.hyps(2) by simp
  then have IH: "\<And>st'. retry_loop func max_retries (Suc attempt) st' =
     (v, st'\<lparr>rate_limit_waits := rate_limit_waits st' + int (throttles func (Suc attempt) k)\<rparr>,
      concat (map (attempt_waits func max_retries) [Suc attempt..<k]))"
    using Suc.hyps(1) lt by simp
  have upt: "[attempt..<k] = attempt # [Suc attempt..<k]"
    using lt by (simp add: upt_conv_Cons)
  have cnt: "throttles func attempt k
      = (if f = TooManyRequests then 1 else 0) + throttles func (Suc attempt) k"
    using f by (simp add: throttles_def upt del: upt.simps)
  show ?case
    using lt' notlast notlast' f
    by (subst retry_loop.simps)
       (cases f; simp add: Let_def IH upt cnt attempt_waits_def del: upt.simps)
qed

lemma retry_failing_all:
  assumes "\<forall>a. int a < max_retries \<longrightarrow> (\<exists>f. func a = Raises f)"
  shows "snd (snd (retry_loop func max_retries attempt st))
     = concat (map (attempt_waits func max_retries) [attempt..<nat max_retries])"
proof (induction "nat max_retries - attempt" arbitrary: attempt st)
  case 0
  then have "\<not> int attempt < max_retries" by simp
  then show ?case using 0
    by (subst retry_loop.simps) simp
next
  case (Suc n)
  then have lt: "attempt < nat max_retries" by simp
  then have lt': "int attempt < max_retries" by simp
  then obtain f where f: "func attempt = Raises f" using assms by blast
  have "n = nat max_retries - Suc attempt" using Suc.hyps(2) by simp
  then have IH: "\<And>st'. snd (snd (retry_loop func max_retries (Suc attempt) st'))
      = concat (map (attempt_waits func max_retries) [Suc attempt..<nat max_retries])"
    using Suc.hyps(1) by simp
  have upt: "[attempt..<nat max_retries] = attempt # [Suc attempt..<nat max_retries]"
    using lt by (simp add: upt_conv_Cons)
  have last: "[Suc attempt..<nat max_retries] = []" if "int attempt = max_retries - 1"
    using that by simp
  show ?case
    using lt' f
    by (subst retry_loop.simps)
       (cases f; auto simp: Let_def IH upt attempt_waits_def case_prod_beta last
          simp del: upt.simps)
qed

lemma concat_split_at:
  assumes "a < k"
  shows "concat (map g [0..<k]) = concat (map g [0..<a]) @ g a @ concat (map g [Suc a..<k])"
proof -
  have "[0..<k] = [0..<a] @ a # [Suc a..<k]"
    using assms by (metis le_add2 le_add_same_cancel2 less_imp_add_positive upt_add_eq_append
        upt_conv_Cons)
  then show ?thesis by simp
qed

lemma throttle_waits_bound:
  "sum_list (map (\<lambda>a. if func a = Raises TooManyRequests then 60 * (a + 1) else 0) [0..<k])
     \<le> sum_list (concat (map (attempt_waits func max_retries) [0..<k]))"
proof (induction k)
  case 0
  then show ?case by simp
next
  case (Suc k)
  have "(if func k = Raises TooManyRequests then 60 * (k + 1) else 0)
      \<le> sum_list (attempt_waits func max_retries k)"
    by (auto simp: attempt_waits_def)
  with Suc show ?case by simp
qed

lemma all_throttled_waits:
  assumes "\<forall>a < k. func a = Raises TooManyRequests"
  shows "concat (map (attempt_waits func max_retries) [0..<k]) = map (\<lambda>a. 60 * (a + 1)) [0..<k]"
  using assms by (induction k) (simp_all add: attempt_waits_def)

text \<open>
  Claim C6. Whatever the classes of the other failures, a throttling failure on attempt
  number \<open>n\<close> (counted from 1; \<open>a = n - 1\<close> below) is followed by a sleep of \<open>60 * n\<close>
  seconds, placed after the sleeps of the attempts before it and before those of the
  attempts after it, and the attempt is counted: the loop goes on with attempt
  \<open>n + 1\<close> and stops after \<open>max_retries\<close> attempts. When the first \<open>k\<close> attempts fail
  and attempt \<open>k + 1\<close> returns, with \<open>k < max_retries\<close>, the call returns that value; the
  time slept is at least the sum of \<open>60 * n\<close> over the throttled attempts, on top of a
  governor wait that is not negative, and when all \<open>k\<close> failures are throttling
  failures the sleeps are 60, 120, ..., \<open>60 * k\<close>, \<open>30 * k * (k + 1)\<close> seconds in all.
  When all \<open>max_retries\<close> attempts fail, throttled ones included, the call gives up
  with \<open>None\<close>.
\<close>

theorem retry_throttling:
  assumes "limiter_ready rate_limiter"
  shows "(int k < max_retries \<and> (\<forall>a < k. \<exists>f. func a = Raises f) \<and> func k = Returns v
      \<longrightarrow> (\<exists>rep. api_call_with_retry rate_limiter st now func max_retries = Inr rep
           \<and> result rep = v
           \<and> retry_sleeps rep = concat (map (attempt_waits func max_retries) [0..<k])
           \<and> (\<forall>a < k. func a = Raises TooManyRequests
                \<longrightarrow> retry_sleeps rep
                    = concat (map (attempt_waits func max_retries) [0..<a])
                      @ 60 * (a + 1)
                      # concat (map (attempt_waits func max_retries) [Suc a..<k]))
           \<and> sum_list (map (\<lambda>a. if func a = Raises TooManyRequests then 60 * (a + 1) else 0)
                  [0..<k]) \<le> sum_list (retry_sleeps rep)
           \<and> ((\<forall>a < k. func a = Raises TooManyRequests)
                \<longrightarrow> retry_sleeps rep = map (\<lambda>a. 60 * (a + 1)) [0..<k]
                    \<and> sum_list (retry_sleeps rep) = 30 * k * (k + 1))
           \<and> 0 \<le> limiter_wait rep
           \<and> rate_limit_waits (stats_after rep)
               = rate_limit_waits st + int (throttles func 0 k)))
   \<and> ((\<forall>a. int a < max_retries \<longrightarrow> (\<exists>f. func a = Raises f))
      \<longrightarrow> (\<exists>rep. api_call_with_retry rate_limiter st now func max_retries = Inr rep
           \<and> result rep = None
           \<and> retry_sleeps rep
               = concat (map (attempt_waits func max_retries) [0..<nat max_retries])
           \<and> (\<forall>a. int a < max_retries \<and> func a = Raises TooManyRequests
                \<longrightarrow> retry_sleeps rep
                    = concat (map (attempt_waits func max_retries) [0..<a])
                      @ 60 * (a + 1)
                      # concat (map (attempt_waits func max_retries) [Suc a..<nat max_retries]))
           \<and> ((\<forall>a. int a < max_retries \<longrightarrow> func a = Raises TooManyRequests)
                \<longrightarrow> retry_sleeps rep = map (\<lambda>a. 60 * (a + 1)) [0..<nat max_retries])))"
proof -
  let ?aw = "attempt_waits func max_retries"
  from api_call_unfold [OF assms, of st now func max_retries]
  obtain rep where rep: "api_call_with_retry rate_limiter st now func max_retries = Inr rep"
    and res: "result rep = fst (retry_loop func max_retries 0 st)"
    and sta: "stats_after rep = fst (snd (retry_loop func max_retries 0 st))"
    and sl: "retry_sleeps rep = snd (snd (retry_loop func max_retries 0 st))"
    and lw: "0 \<le> limiter_wait rep"
    by force
  have throttled_at: "concat (map ?aw [0..<n])
      = concat (map ?aw [0..<a]) @ 60 * (a + 1) # concat (map ?aw [Suc a..<n])"
    if "a < n" and "func a = Raises TooManyRequests" for a n
    using concat_split_at [OF that(1), of ?aw] that(2) by (simp add: attempt_waits_def)
  have part1: "result rep = v
      \<and> retry_sleeps rep = concat (map ?aw [0..<k])
      \<and> (\<forall>a < k. func a = Raises TooManyRequests
           \<longrightarrow> retry_sleeps rep
               = concat (map ?aw [0..<a]) @ 60 * (a + 1) # concat (map ?aw [Suc a..<k]))
      \<and> sum_list (map (\<lambda>a. if func a = Raises TooManyRequests then 60 * (a + 1) else 0)
             [0..<k]) \<le> sum_list (retry_sleeps rep)
      \<and> ((\<forall>a < k. func a = Raises TooManyRequests)
           \<longrightarrow> retry_sleeps rep = map (\<lambda>a. 60 * (a + 1)) [0..<k]
               \<and> sum_list (retry_sleeps rep) = 30 * k * (k + 1))
      \<and> rate_limit_waits (stats_after rep) = rate_limit_waits st + int (throttles func 0 k)"
    if "int k < max_retries" and "\<forall>a < k. \<exists>f. func a = Raises f" and "func k = Returns v"
  proof -
    have "retry_loop func max_retries 0 st =
       (v, st\<lparr>rate_limit_waits := rate_limit_waits st + int (throttles func 0 k)\<rparr>,
        concat (map ?aw [0..<k]))"
      by (rule retry_failing_prefix [OF that]) simp
    then have r: "result rep = v"
      and s: "retry_sleeps rep = concat (map ?aw [0..<k])"
      and w: "rate_limit_waits (stats_after rep) = rate_limit_waits st + int (throttles func 0 k)"
      using res sta sl by simp_all
    have t: "\<forall>a < k. func a = Raises TooManyRequests
           \<longrightarrow> retry_sleeps rep
               = concat (map ?aw [0..<a]) @ 60 * (a + 1) # concat (map ?aw [Suc a..<k])"
      unfolding s using throttled_at by blast
    have b: "sum_list (map (\<lambda>a. if func a = Raises TooManyRequests then 60 * (a + 1) else 0)
             [0..<k]) \<le> sum_list (retry_sleeps rep)"
      unfolding s by (rule throttle_waits_bound)
    have p: "retry_sleeps rep = map (\<lambda>a. 60 * (a + 1)) [0..<k]
        \<and> sum_list (retry_sleeps rep) = 30 * k * (k + 1)"
      if "\<forall>a < k. func a = Raises TooManyRequests"
    proof -
      have "retry_sleeps rep = map (\<lambda>a. 60 * (a + 1)) [0..<k]"
        unfolding s by (rule all_throttled_waits [OF that])
      moreover have "sum_list (map (\<lambda>a. 60 * (a + 1)) [0..<k]) = 30 * k * (k + 1)"
        by (rule sum_throttle_waits)
      ultimately show ?thesis by simp
    qed
    from r s t b p w show ?thesis by blast
  qed
  have part2: "result rep = None
      \<and> retry_sleeps rep = concat (map ?aw [0..<nat max_retries])
      \<and> (\<forall>a. int a < max_retries \<and> func a = Raises TooManyRequests
           \<longrightarrow> retry_sleeps rep
               = concat (map ?aw [0..<a]) @ 60 * (a + 1)
                 # concat (map ?aw [Suc a..<nat max_retries]))
      \<and> ((\<forall>a. int a < max_retries \<longrightarrow> func a = Raises TooManyRequests)
           \<longrightarrow> retry_sleeps rep = map (\<lambda>a. 60 * (a + 1)) [0..<nat max_retries])"
    if all: "\<forall>a. int a < max_retries \<longrightarrow> (\<exists>f. func a = Raises f)"
  proof -
    have r: "result rep = None"
      using retry_all_fail [OF all, of 0 st] res by simp
    have s: "retry_sleeps rep = concat (map ?aw [0..<nat max_retries])"
      using retry_failing_all [OF all, of 0 st] sl by simp
    have t: "\<forall>a. int a < max_retries \<and> func a = Raises TooManyRequests
           \<longrightarrow> retry_sleeps rep
               = concat (map ?aw [0..<a]) @ 60 * (a + 1)
                 # concat (map ?aw [Suc a..<nat max_retries])"
      unfolding s using throttled_at by auto
    have p: "retry_sleeps rep = map (\<lambda>a. 60 * (a + 1)) [0..<nat max_retries]"
      if "\<forall>a. int a < max_retries \<longrightarrow> func a = Raises TooManyRequests"
      unfolding s by (rule all_throttled_waits) (use that in auto)
    from r s t p show ?thesis by blast
  qed
  show ?thesis using rep lw part1 part2 by blast
qed

text \<open>
  With three attempts allowed: an unexpected error and a throttling failure, then a
  result, sleep 120 seconds after the second attempt; two throttled attempts and then
  a result sleep 60 and 120 seconds; three throttled attempts give no result, after
  sleeps of 60, 120 and 180 seconds.
\<close>

theorem retry_throttling_witness:
  "(\<exists>rep. api_call_with_retry None initial_stats 0 other_then_throttled 3 = Inr rep
      \<and> result rep = Some ''ok'' \<and> retry_sleeps rep = [120])
   \<and> (\<exists>rep. api_call_with_retry None initial_stats 0 throttled_twice 3 = Inr rep
      \<and> result rep = Some ''ok'' \<and> retry_sleeps rep = [60, 120]
      \<and> sum_list (retry_sleeps rep) = 180)
   \<and> (\<exists>rep. api_call_with_retry None initial_stats 0 throttled_always 3 = Inr rep
      \<and> result rep = None \<and> retry_sleeps rep = [60, 120, 180])"
proof -
  have h: "limiter_ready None" by (simp add: limiter_ready_def)
  have u2: "[0..<2] = [0, 1]" by (simp add: upt_rec numeral_2_eq_2)
  have u3: "[0..<nat 3] = [0, 1, 2]" by (simp add: upt_rec numeral_3_eq_3)
  have o: "int 2 < 3 \<and> (\<forall>a < 2. \<exists>f. other_then_throttled a = Raises f)
      \<and> other_then_throttled 2 = Returns (Some ''ok'')"
    by (simp add: other_then_throttled_def)
  have ow: "concat (map (attempt_waits other_then_throttled 3) [0, 1]) = [120]"
    by (simp add: attempt_waits_def other_then_throttled_def)
  have a: "int 2 < 3 \<and> (\<forall>a < 2. \<exists>f. throttled_twice a = Raises f)
      \<and> throttled_twice 2 = Returns (Some ''ok'')"
    by (simp add: throttled_twice_def)
  have a': "\<forall>a < 2. throttled_twice a = Raises TooManyRequests"
    by (simp add: throttled_twice_def)
  have b: "\<forall>a. int a < 3 \<longrightarrow> (\<exists>f. throttled_always a = Raises f)"
    by (simp add: throttled_always_def)
  have b': "\<forall>a. int a < 3 \<longrightarrow> throttled_always a = Raises TooManyRequests"
    by (simp add: throttled_always_def)
  from retry_throttling [OF h, of 2 3 other_then_throttled "Some ''ok''" initial_stats 0] o
  have "\<exists>rep. api_call_with_retry None initial_stats 0 other_then_throttled 3 = Inr rep
      \<and> result rep = Some ''ok''
      \<and> retry_sleeps rep = concat (map (attempt_waits other_then_throttled 3) [0..<2])"
    by blast
  then have one: "\<exists>rep. api_call_with_retry None initial_stats 0 other_then_throttled 3 = Inr rep
      \<and> result rep = Some ''ok'' \<and> retry_sleeps rep = [120]"
    unfolding u2 ow .
  from retry_throttling [OF h, of 2 3 throttled_twice "Some ''ok''" initial_stats 0] a a'
  have "\<exists>rep. api_call_with_retry None initial_stats 0 throttled_twice 3 = Inr rep
      \<and> result rep = Some ''ok'' \<and> retry_sleeps rep = map (\<lambda>a. 60 * (a + 1)) [0..<2]
      \<and> sum_list (retry_sleeps rep) = 30 * 2 * (2 + 1)"
    by blast
  then have two: "\<exists>rep. api_call_with_retry None initial_stats 0 throttled_twice 3 = Inr rep
      \<and> result rep = Some ''ok'' \<and> retry_sleeps rep = [60, 120]
      \<and> sum_list (retry_sleeps rep) = 180"
    unfolding u2 by simp
  from retry_throttling [OF h, of 0 3 throttled_always None initial_stats 0] b b'
  have "\<exists>rep. api_call_with_retry None initial_stats 0 throttled_always 3 = Inr rep
      \<and> result rep = None \<and> retry_sleeps rep = map (\<lambda>a. 60 * (a + 1)) [0..<nat 3]"
    by blast
  then have three: "\<exists>rep. api_call_with_retry None initial_stats 0 throttled_always 3 = Inr rep
      \<and> result rep = None \<and> retry_sleeps rep = [60, 120, 180]"
    unfolding u3 by simp
  from one two three show ?thesis by blast
qed

section \<open>Properties of the statistics snapshots\<close>

text \<open>
  Claim C10. \<open>get_stats\<close> returns a new dict with the contents of the component's
  statistics and leaves the store otherwise as it was; whatever the caller then does to
  the returned dict, the component's own dict is unchanged; and a second call right
  after the first returns a dict equal to the first one.
\<close>

theorem get_stats_detached:
  assumes "stats_ref c < length h"
  shows "snd (get_stats c h) \<noteq> stats_ref c
     \<and> fst (get_stats c h) ! snd (get_stats c h) = h ! stats_ref c
     \<and> take (length h) (fst (get_stats c h)) = h
     \<and> mutate (fst (get_stats c h)) (snd (get_stats c h)) f ! stats_ref c = h ! stats_ref c
     \<and> fst (get_stats c (fst (get_stats c h))) ! snd (get_stats c (fst (get_stats c h)))
         = fst (get_stats c (fst (get_stats c h))) ! snd (get_stats c h)"
  using assms
  by (simp add: get_stats_def dict_copy_def mutate_def nth_append)

text \<open>
  The extractor's and the loader's dicts in one store; the caller clears the snapshot
  of the loader's.
\<close>

theorem get_stats_detached_witness:
  "snd (get_stats \<lparr>stats_ref = 1\<rparr> [extractor_stats_dict, loader_stats_dict]) = 2
   \<and> fst (get_stats \<lparr>stats_ref = 1\<rparr> [extractor_stats_dict, loader_stats_dict]) ! 2
       = loader_stats_dict
   \<and> mutate (fst (get_stats \<lparr>stats_ref = 1\<rparr> [extractor_stats_dict, loader_stats_dict])) 2
        (\<lambda>d. []) ! 1 = loader_stats_dict"
proof -
  have h: "stats_ref \<lparr>stats_ref = 1\<rparr> < length [extractor_stats_dict, loader_stats_dict]"
    by simp
  have s: "snd (get_stats \<lparr>stats_ref = 1\<rparr> [extractor_stats_dict, loader_stats_dict]) = 2"
    by (simp add: get_stats_def dict_copy_def)
  from get_stats_detached [OF h, of "\<lambda>d. []"] s show ?thesis
    by simp
qed

section \<open>Properties of the Extraction Engine\<close>

lemma snoc_split:
  assumes "tr @ [e] = pre @ Checkpoint i # post"
  shows "(post = [] \<and> pre = tr \<and> e = Checkpoint i)
     \<or> (\<exists>post'. post = post' @ [e] \<and> tr = pre @ Checkpoint i # post')"
proof (cases post rule: rev_cases)
  case Nil
  with assms show ?thesis by simp
next
  case (snoc post' x)
  with assms have "tr @ [e] = (pre @ Checkpoint i # post') @ [x]" by simp
  then have "tr = pre @ Checkpoint i # post'" and "e = x" by simp_all
  with snoc show ?thesis by simp
qed

lemma follow_other:
  assumes "checkpoints_follow tr" and "\<And>i. e \<noteq> Checkpoint i"
  shows "checkpoints_follow (tr @ [e])"
  unfolding checkpoints_follow_def
proof (intro allI impI)
  fix pre post i
  assume "tr @ [e] = pre @ Checkpoint i # post"
  from snoc_split [OF this] assms(2)
  obtain post' where "tr = pre @ Checkpoint i # post'" by blast
  with assms(1) show "ExtractItem i \<in> set pre
      \<and> (CommentsExtracted i \<in> set pre \<or> CommentsFailed i \<in> set pre)"
    unfolding checkpoints_follow_def by blast
qed

lemma follow_checkpoint:
  assumes "checkpoints_follow tr" and "steps_done tr j"
  shows "checkpoints_follow (tr @ [Checkpoint j])"
  unfolding checkpoints_follow_def
proof (intro allI impI)
  fix pre post i
  assume "tr @ [Checkpoint j] = pre @ Checkpoint i # post"
  from snoc_split [OF this]
  consider "pre = tr" and "i = j" | post' where "tr = pre @ Checkpoint i # post'"
    by auto
  then show "ExtractItem i \<in> set pre
      \<and> (CommentsExtracted i \<in> set pre \<or> CommentsFailed i \<in> set pre)"
  proof cases
    case 1
    with assms(2) show ?thesis by (simp add: steps_done_def)
  next
    case 2
    with assms(1) show ?thesis unfolding checkpoints_follow_def by blast
  qed
qed

lemma steps_done_mono: "steps_done tr i \<Longrightarrow> set tr \<subseteq> set tr' \<Longrightarrow> steps_done tr' i"
  by (auto simp: steps_done_def)

lemma accounted_same:
  assumes "accounted K s" and "checkpoint p = checkpoint s" and "disk p = disk s"
    and "set (trace s) \<subseteq> set (trace p)"
  shows "accounted K p"
  unfolding accounted_def
proof (intro allI impI)
  fix i
  assume "marked_done (checkpoint p) (disk p) i"
  with assms(1-3) have "K i \<or> steps_done (trace s) i"
    by (simp add: accounted_def)
  with assms(4) show "K i \<or> steps_done (trace p) i"
    using steps_done_mono by blast
qed

lemma reload_unreadable: "is_processed (init_checkpoint Unreadable) i = Inr False"
  by (simp add: is_processed_def init_checkpoint_def load_def empty_checkpoint_def
      processed_posts_def)

lemma reload_contents: "is_processed (init_checkpoint (Contents (data m))) i = is_processed m i"
  by (simp add: is_processed_def init_checkpoint_def load_def)

lemma save_reports:
  assumes "is_processed (saved_manager (save m f w j now)) i = Inr True"
  shows "is_processed m i = Inr True \<or> i = j"
proof (cases "\<exists>xs. processed_posts (data m) = Inr (JList xs)")
  case True
  then obtain xs where xs: "processed_posts (data m) = Inr (JList xs)" by blast
  from save_memory [OF xs]
  have "processed_posts (data (saved_manager (save m f w j now))) = Inr (JList (xs @ [JStr j]))" .
  with assms xs show ?thesis by (auto simp: is_processed_def)
next
  case False
  then have "saved_manager (save m f w j now) = m"
    by (auto simp: save_def split: sum.splits json.splits)
  with assms show ?thesis by simp
qed

lemma save_file_cases:
  "saved_file (save m f w j now) = f \<or> saved_file (save m f w j now) = Unreadable
   \<or> saved_file (save m f w j now) = Contents (data (saved_manager (save m f w j now)))"
  by (auto simp: save_def Let_def split: sum.splits json.splits write_result.splits)

lemma save_points_cases:
  "(m', f') \<in> set (save_points m f w j now)
   \<Longrightarrow> m' = saved_manager (save m f w j now) \<and> (f' = f \<or> f' = Unreadable)"
  by (auto simp: save_points_def Let_def split: if_splits)

lemma accounted_saved:
  assumes "accounted K s" and "checkpoint s = Some m" and "steps_done (trace s) j"
    and "checkpoint p = Some (saved_manager (save m (disk s) w j now))"
    and "disk p = disk s \<or> disk p = Unreadable
       \<or> disk p = Contents (data (saved_manager (save m (disk s) w j now)))"
    and "set (trace s) \<subseteq> set (trace p)"
  shows "accounted K p"
  unfolding accounted_def
proof (intro allI impI)
  fix i
  assume md: "marked_done (checkpoint p) (disk p) i"
  let ?m' = "saved_manager (save m (disk s) w j now)"
  have old: "K i \<or> steps_done (trace p) i"
    if "is_processed m i = Inr True \<or> is_processed (init_checkpoint (disk s)) i = Inr True"
  proof -
    from that assms(2) have "marked_done (checkpoint s) (disk s) i"
      by (auto simp: marked_done_def)
    with assms(1) have "K i \<or> steps_done (trace s) i" by (simp add: accounted_def)
    with assms(6) show ?thesis using steps_done_mono by blast
  qed
  have new: "K i \<or> steps_done (trace p) i" if "is_processed ?m' i = Inr True"
  proof -
    from save_reports [OF that] have "is_processed m i = Inr True \<or> i = j" .
    then show ?thesis
    proof
      assume "is_processed m i = Inr True"
      then show ?thesis using old by blast
    next
      assume "i = j"
      with assms(3,6) show ?thesis using steps_done_mono by blast
    qed
  qed
  from md assms(4,5)
  consider "is_processed ?m' i = Inr True"
    | "is_processed (init_checkpoint (disk s)) i = Inr True"
    by (auto simp: marked_done_def reload_unreadable reload_contents)
  then show "K i \<or> steps_done (trace p) i"
    using old new by cases blast+
qed

lemma extract_item_facts:
  assumes "extract_item sub s = (pd, s1)"
  shows "checkpoint s1 = checkpoint s" and "disk s1 = disk s"
    and "pd = None \<Longrightarrow> trace s1 = trace s"
    and "pd = Some post_data
       \<Longrightarrow> reddit_id post_data = sub_id sub \<and> trace s1 = trace s @ [ExtractItem (sub_id sub)]"
  using assms
  by (auto simp: extract_item_def get_submission_data_def split: if_splits)

lemma extract_comments_facts:
  shows "checkpoint (extract_comments n idx sub s) = checkpoint s"
    and "disk (extract_comments n idx sub s) = disk s"
    and "\<exists>c mid. (c = CommentsExtracted (sub_id sub) \<or> c = CommentsFailed (sub_id sub))
       \<and> (mid = [] \<or> mid = [Sleep DELAY_BETWEEN_POSTS])
       \<and> trace (extract_comments n idx sub s) = trace s @ c # mid"
  by (auto simp: extract_comments_def FETCH_COMMENTS_def split: prod.splits)

lemma save_checkpoint_none:
  "checkpoint s = None \<Longrightarrow> save_checkpoint clock writes idx sub post_data s = s"
  by (simp add: save_checkpoint_def)

lemma save_checkpoint_some:
  assumes "checkpoint s = Some m"
    and "r = save m (disk s) (writes idx) (reddit_id post_data) (clock idx)"
  shows "checkpoint (save_checkpoint clock writes idx sub post_data s) = Some (saved_manager r)"
    and "disk (save_checkpoint clock writes idx sub post_data s) = saved_file r"
    and "trace (save_checkpoint clock writes idx sub post_data s)
       = trace s @ [if raised r = None then Checkpoint (reddit_id post_data)
                    else SubmissionError (sub_id sub)]"
  using assms by (auto simp: save_checkpoint_def Let_def split: option.splits)

lemma item_points_kinds:
  assumes "extract_item sub s = (Some post_data, s1)"
    and "p \<in> set (item_points clock writes n idx sub s)"
  shows "p = s1 \<or> p = extract_comments n idx sub s1
     \<or> p = save_checkpoint clock writes idx sub post_data (extract_comments n idx sub s1)
     \<or> (\<exists>m m' f'. checkpoint (extract_comments n idx sub s1) = Some m
          \<and> (m', f') \<in> set (save_points m (disk (extract_comments n idx sub s1)) (writes idx)
                (reddit_id post_data) (clock idx))
          \<and> p = (extract_comments n idx sub s1)\<lparr>checkpoint := Some m', disk := f'\<rparr>)"
proof (cases "checkpoint (extract_comments n idx sub s1)")
  case None
  with assms show ?thesis by (auto simp: item_points_def Let_def)
next
  case (Some m)
  with assms show ?thesis by (auto simp: item_points_def Let_def)
qed

lemma item_points_inv:
  assumes "accounted K s" and "checkpoints_follow (trace s)"
    and "p \<in> set (item_points clock writes n idx sub s)"
  shows "accounted K p \<and> checkpoints_follow (trace p)"
proof -
  obtain pd s1 where e: "extract_item sub s = (pd, s1)" by fastforce
  note f1 = extract_item_facts [OF e]
  show ?thesis
  proof (cases pd)
    case None
    with e assms(3) have "p = s1" by (simp add: item_points_def)
    moreover have "trace s1 = trace s" using f1(3) None by simp
    moreover from this have "accounted K s1"
      by (intro accounted_same [OF assms(1) f1(1,2)]) simp
    ultimately show ?thesis using assms(2) by simp
  next
    case (Some post_data)
    let ?j = "sub_id sub"
    from f1(4) [OF Some] have rid: "reddit_id post_data = ?j"
      and t1: "trace s1 = trace s @ [ExtractItem ?j]" by simp_all
    define s2 where "s2 = extract_comments n idx sub s1"
    from extract_comments_facts [where n = n and idx = idx and sub = sub and s = s1]
    obtain c mid where c: "c = CommentsExtracted ?j \<or> c = CommentsFailed ?j"
      and mid: "mid = [] \<or> mid = [Sleep DELAY_BETWEEN_POSTS]"
      and t2: "trace s2 = trace s1 @ c # mid"
      and c2: "checkpoint s2 = checkpoint s1" and d2: "disk s2 = disk s1"
      unfolding s2_def by blast
    have a1: "accounted K s1"
      by (rule accounted_same [OF assms(1) f1(1,2)]) (auto simp: t1)
    have w1: "checkpoints_follow (trace s1)"
      unfolding t1 by (rule follow_other [OF assms(2)]) simp
    have a2: "accounted K s2"
      by (rule accounted_same [OF a1 c2 d2]) (auto simp: t2)
    have wc: "checkpoints_follow (trace s1 @ [c])"
      by (rule follow_other [OF w1]) (use c in auto)
    have w2: "checkpoints_follow (trace s2)"
    proof (cases "mid = []")
      case True
      with wc t2 show ?thesis by simp
    next
      case False
      with mid have "mid = [Sleep DELAY_BETWEEN_POSTS]" by simp
      moreover have "checkpoints_follow ((trace s1 @ [c]) @ [Sleep DELAY_BETWEEN_POSTS])"
        by (rule follow_other [OF wc]) simp
      ultimately show ?thesis using t2 by simp
    qed
    have dn: "steps_done (trace s2) ?j"
      using t1 t2 c by (auto simp: steps_done_def)
    let ?fin = "save_checkpoint clock writes idx sub post_data s2"
    have fin: "accounted K ?fin \<and> checkpoints_follow (trace ?fin)"
    proof (cases "checkpoint s2")
      case None
      then show ?thesis using a2 w2 by (simp add: save_checkpoint_none)
    next
      case (Some m)
      define r where "r = save m (disk s2) (writes idx) ?j (clock idx)"
      have r: "r = save m (disk s2) (writes idx) (reddit_id post_data) (clock idx)"
        by (simp add: r_def rid)
      note sc = save_checkpoint_some [where clock = clock and writes = writes and idx = idx
          and sub = sub and post_data = post_data and s = s2 and m = m and r = r, OF Some r]
      have ck: "checkpoint ?fin = Some (saved_manager (save m (disk s2) (writes idx) ?j (clock idx)))"
        using sc(1) by (simp add: r_def)
      have dk: "disk ?fin = disk s2 \<or> disk ?fin = Unreadable
          \<or> disk ?fin = Contents (data (saved_manager (save m (disk s2) (writes idx) ?j (clock idx))))"
        using sc(2) save_file_cases [of m "disk s2" "writes idx" ?j "clock idx"]
        by (simp add: r_def)
      have tr: "set (trace s2) \<subseteq> set (trace ?fin)"
        using sc(3) by auto
      have a: "accounted K ?fin"
        by (rule accounted_saved [OF a2 Some dn ck dk tr])
      have w: "checkpoints_follow (trace ?fin)"
      proof (cases "raised r = None")
        case True
        then have "trace ?fin = trace s2 @ [Checkpoint ?j]" using sc(3) rid by simp
        moreover have "checkpoints_follow (trace s2 @ [Checkpoint ?j])"
          by (rule follow_checkpoint [OF w2 dn])
        ultimately show ?thesis by simp
      next
        case False
        then have "trace ?fin = trace s2 @ [SubmissionError ?j]" using sc(3) by simp
        moreover have "checkpoints_follow (trace s2 @ [SubmissionError ?j])"
          by (rule follow_other [OF w2]) simp
        ultimately show ?thesis by simp
      qed
      from a w show ?thesis ..
    qed
    have mids: "accounted K p \<and> checkpoints_follow (trace p)"
      if m: "checkpoint s2 = Some m"
        and in_pts: "(m', f') \<in> set (save_points m (disk s2) (writes idx)
            (reddit_id post_data) (clock idx))"
        and p: "p = s2\<lparr>checkpoint := Some m', disk := f'\<rparr>" for m m' f'
    proof -
      from save_points_cases [OF in_pts] rid
      have m': "m' = saved_manager (save m (disk s2) (writes idx) ?j (clock idx))"
        and f': "f' = disk s2 \<or> f' = Unreadable" by simp_all
      have ck: "checkpoint p = Some (saved_manager (save m (disk s2) (writes idx) ?j (clock idx)))"
        using p m' by simp
      have dk: "disk p = disk s2 \<or> disk p = Unreadable
          \<or> disk p = Contents (data (saved_manager (save m (disk s2) (writes idx) ?j (clock idx))))"
        using p f' by auto
      have tr: "set (trace s2) \<subseteq> set (trace p)" using p by simp
      have "accounted K p"
        by (rule accounted_saved [OF a2 m dn ck dk tr])
      moreover have "checkpoints_follow (trace p)" using p w2 by simp
      ultimately show ?thesis ..
    qed
    from item_points_kinds [OF e [unfolded Some] assms(3)]
    consider "p = s1" | "p = s2" | "p = ?fin"
      | m m' f' where "checkpoint s2 = Some m"
        and "(m', f') \<in> set (save_points m (disk s2) (writes idx)
            (reddit_id post_data) (clock idx))"
        and "p = s2\<lparr>checkpoint := Some m', disk := f'\<rparr>"
      unfolding s2_def by blast
    then show ?thesis
    proof cases
      case 1
      with a1 w1 show ?thesis by simp
    next
      case 2
      with a2 w2 show ?thesis by simp
    next
      case 3
      with fin show ?thesis by simp
    next
      case (4 m m' f')
      then show ?thesis by (rule mids)
    qed
  qed
qed

lemma process_in_points:
  "process_submission clock writes n idx sub s \<in> set (item_points clock writes n idx sub s)"
  by (simp add: process_submission_def item_points_def Let_def split: prod.splits option.splits)

lemma run_points_inv:
  assumes "accounted K s" and "checkpoints_follow (trace s)"
    and "p \<in> set (run_points clock writes n idx subs s)"
  shows "accounted K p \<and> checkpoints_follow (trace p)"
  using assms
proof (induction subs arbitrary: idx s)
  case Nil
  then show ?case by simp
next
  case (Cons sub subs)
  let ?s' = "process_submission clock writes n idx sub s"
  from Cons.prems(3)
  consider "p \<in> set (item_points clock writes n idx sub s)"
    | "p \<in> set (run_points clock writes n (idx + 1) subs ?s')"
    by auto
  then show ?case
  proof cases
    case 1
    then show ?thesis by (rule item_points_inv [OF Cons.prems(1,2)])
  next
    case 2
    have "accounted K ?s' \<and> checkpoints_follow (trace ?s')"
      by (rule item_points_inv [OF Cons.prems(1,2) process_in_points])
    then show ?thesis using Cons.IH [OF _ _ 2] by blast
  qed
qed

lemma loop_in_points:
  "extract_loop clock writes n idx subs s \<in> set (s # run_points clock writes n idx subs s)"
proof (induction subs arbitrary: idx s)
  case Nil
  then show ?case by simp
next
  case (Cons sub subs)
  let ?s' = "process_submission clock writes n idx sub s"
  from Cons.IH [of "idx + 1" ?s']
  have "extract_loop clock writes n (idx + 1) subs ?s' = ?s'
      \<or> extract_loop clock writes n (idx + 1) subs ?s'
          \<in> set (run_points clock writes n (idx + 1) subs ?s')"
    by simp
  then show ?case using process_in_points [of clock writes n idx sub s] by auto
qed


lemmas run_defs = extract_posts_with_comments_def initial_run_def process_submission_def
  extract_item_def extract_comments_def save_checkpoint_def get_submission_data_def
  get_submission_comments_def FETCH_COMMENTS_def DELAY_BETWEEN_POSTS_def MAX_COMMENT_DEPTH_def
  initial_stats_def init_checkpoint_def load_def empty_checkpoint_def save_def
  processed_posts_def fixed_clock_def all_written_def Let_def

lemma three_submissions_run:
  shows "trace (extract_posts_with_comments fixed_clock all_written three_submissions initial_stats
      (Some (init_checkpoint Missing)) Missing)
   = [ExtractItem ''p1'', CommentsExtracted ''p1'', Sleep 1, Checkpoint ''p1'',
      ExtractItem ''p3'', CommentsExtracted ''p3''] @ Checkpoint ''p3'' # []"
  and "checkpoint (extract_posts_with_comments fixed_clock all_written three_submissions
      initial_stats (Some (init_checkpoint Missing)) Missing)
   = Some \<lparr>data = JObj [(''processed_posts'', JList [JStr ''p1'', JStr ''p3'']),
                        (''last_run'', JStr ''T'')]\<rparr>"
  and "disk (extract_posts_with_comments fixed_clock all_written three_submissions
      initial_stats (Some (init_checkpoint Missing)) Missing)
   = Contents (JObj [(''processed_posts'', JList [JStr ''p1'', JStr ''p3'']),
                     (''last_run'', JStr ''T'')])"
  by (simp_all add: three_submissions_def run_defs)



section \<open>Properties of the Load Engine\<close>

lemma merge_first_keys:
  "doc_key setdoc = Some k \<Longrightarrow> map doc_key (merge_first k setdoc t) = map doc_key t"
  by (induction t) (simp_all add: doc_key_def)

lemma merge_first_absent:
  "Some k \<notin> set (map doc_key t) \<Longrightarrow> merge_first k setdoc t = t"
  by (induction t) (auto simp: doc_key_def)

lemma update_one_present:
  "Some k \<in> set (map doc_key t) \<Longrightarrow> update_one k setdoc t = merge_first k setdoc t"
  by (induction t) (auto simp: doc_key_def)

lemma update_one_absent:
  "Some k \<notin> set (map doc_key t) \<Longrightarrow> update_one k setdoc t = t @ [[''reddit_id'' \<mapsto> k] ++ setdoc]"
  by (induction t) (auto simp: doc_key_def)

lemma merge_first_append_present:
  "Some k \<in> set (map doc_key t) \<Longrightarrow> merge_first k setdoc (t @ u) = merge_first k setdoc t @ u"
  by (induction t) (auto simp: doc_key_def)

lemma merge_first_append_absent:
  "Some k \<notin> set (map doc_key t) \<Longrightarrow> merge_first k setdoc (t @ u) = t @ merge_first k setdoc u"
  by (induction t) (auto simp: doc_key_def)

lemma merge_first_compose:
  "doc_key p1 = Some k \<Longrightarrow>
     merge_first k p2 (merge_first k p1 t) = merge_first k (p1 ++ p2) t"
  by (induction t) (simp_all add: doc_key_def)

lemma merge_first_commute:
  assumes "k \<noteq> k'" and "doc_key p = Some k" and "doc_key p' = Some k'"
  shows "merge_first k p (merge_first k' p' t) = merge_first k' p' (merge_first k p t)"
  using assms by (induction t) (auto simp: doc_key_def)

lemma merge_first_empty: "merge_first k Map.empty t = t"
  by (induction t) simp_all

lemma merge_ops_keys:
  "\<forall>op \<in> set ops. well_keyed op \<Longrightarrow> map doc_key (merge_ops ops t) = map doc_key t"
proof (induction ops arbitrary: t)
  case Nil
  then show ?case by simp
next
  case (Cons op ops)
  obtain k p where op: "op = UpdateOne k p" by (cases op)
  with Cons.prems have "doc_key p = Some k" by simp
  with Cons op show ?case by (simp add: merge_first_keys)
qed

lemma apply_ops_present:
  assumes "\<forall>op \<in> set ops. well_keyed op"
    and "\<forall>op \<in> set ops. Some (op_key op) \<in> set (map doc_key t)"
  shows "apply_ops ops t = merge_ops ops t"
  using assms
proof (induction ops arbitrary: t)
  case Nil
  then show ?case by simp
next
  case (Cons op ops)
  obtain k p where op: "op = UpdateOne k p" by (cases op)
  with Cons.prems have wk: "doc_key p = Some k"
    and pr: "Some k \<in> set (map doc_key t)" by simp_all
  have keys: "map doc_key (merge_first k p t) = map doc_key t"
    by (rule merge_first_keys [OF wk])
  have "apply_ops ops (merge_first k p t) = merge_ops ops (merge_first k p t)"
    using Cons.prems by (intro Cons.IH) (simp_all add: keys)
  then show ?case using op pr by (simp add: update_one_present)
qed

lemma apply_ops_seeds:
  assumes "\<forall>op \<in> set ops. well_keyed op"
  shows "apply_ops ops s = merge_ops ops (s @ new_seeds ops (set (map doc_key s)))"
  using assms
proof (induction ops arbitrary: s)
  case Nil
  then show ?case by simp
next
  case (Cons op ops)
  obtain k p where op: "op = UpdateOne k p" by (cases op)
  with Cons.prems have wk: "doc_key p = Some k"
    and rest: "\<forall>op \<in> set ops. well_keyed op" by simp_all
  show ?case
  proof (cases "Some k \<in> set (map doc_key s)")
    case True
    have "apply_ops (op # ops) s = apply_ops ops (merge_first k p s)"
      using op True by (simp add: update_one_present)
    also have "\<dots> = merge_ops ops (merge_first k p s
        @ new_seeds ops (set (map doc_key (merge_first k p s))))"
      by (rule Cons.IH [OF rest])
    also have "\<dots> = merge_ops ops (merge_first k p (s @ new_seeds ops (set (map doc_key s))))"
      using True wk by (simp add: merge_first_keys merge_first_append_present)
    also have "\<dots> = merge_ops (op # ops) (s @ new_seeds (op # ops) (set (map doc_key s)))"
      using op True by simp
    finally show ?thesis .
  next
    case False
    let ?n = "[''reddit_id'' \<mapsto> k] ++ p"
    let ?K = "insert (Some k) (set (map doc_key s))"
    have nk: "doc_key ?n = Some k" using wk by (simp add: doc_key_def)
    have keys: "set (map doc_key (s @ [?n])) = ?K" using nk by auto
    have "apply_ops (op # ops) s = apply_ops ops (s @ [?n])"
      using op False by (simp add: update_one_absent)
    also have "\<dots> = merge_ops ops ((s @ [?n]) @ new_seeds ops (set (map doc_key (s @ [?n]))))"
      by (rule Cons.IH [OF rest])
    also have "\<dots> = merge_ops ops (s @ ?n # new_seeds ops ?K)"
      by (simp only: keys) simp
    also have "s @ ?n # new_seeds ops ?K
        = merge_first k p (s @ [''reddit_id'' \<mapsto> k] # new_seeds ops ?K)"
      using False by (simp add: merge_first_append_absent)
    also have "merge_ops ops (merge_first k p (s @ [''reddit_id'' \<mapsto> k] # new_seeds ops ?K))
        = merge_ops (op # ops) (s @ new_seeds (op # ops) (set (map doc_key s)))"
      using op False by simp
    finally show ?thesis .
  qed
qed

lemma merge_first_through_ops:
  assumes "\<forall>op \<in> set ops. well_keyed op \<and> op_key op \<noteq> k" and "doc_key p = Some k"
  shows "merge_first k p (merge_ops ops t) = merge_ops ops (merge_first k p t)"
  using assms(1)
proof (induction ops arbitrary: t)
  case Nil
  then show ?case by simp
next
  case (Cons op ops)
  obtain k' p' where op: "op = UpdateOne k' p'" by (cases op)
  with Cons.prems have wk: "doc_key p' = Some k'" and ne: "k \<noteq> k'" by auto
  have "merge_first k p (merge_ops ops (merge_first k' p' t))
      = merge_ops ops (merge_first k p (merge_first k' p' t))"
    using Cons.prems by (intro Cons.IH) simp
  also have "merge_first k p (merge_first k' p' t) = merge_first k' p' (merge_first k p t)"
    by (rule merge_first_commute [OF ne assms(2) wk])
  finally show ?case using op by simp
qed

lemma merge_ops_split:
  assumes "\<forall>op \<in> set ops. well_keyed op"
  shows "merge_ops ops t
     = merge_ops (filter (\<lambda>op. op_key op \<noteq> k) ops)
         (merge_ops (filter (\<lambda>op. op_key op = k) ops) t)"
  using assms
proof (induction ops arbitrary: t)
  case Nil
  then show ?case by simp
next
  case (Cons op ops)
  obtain k' p' where op: "op = UpdateOne k' p'" by (cases op)
  with Cons.prems have wk: "doc_key p' = Some k'"
    and rest: "\<forall>op \<in> set ops. well_keyed op" by simp_all
  let ?same = "filter (\<lambda>op. op_key op = k) ops"
  let ?other = "filter (\<lambda>op. op_key op \<noteq> k) ops"
  have IH: "merge_ops ops (merge_first k' p' t)
      = merge_ops ?other (merge_ops ?same (merge_first k' p' t))"
    by (rule Cons.IH [OF rest])
  show ?case
  proof (cases "k' = k")
    case True
    with op IH show ?thesis by simp
  next
    case False
    have "\<forall>op \<in> set ?same. well_keyed op \<and> op_key op \<noteq> k'"
      using rest False by auto
    from merge_first_through_ops [OF this wk]
    have "merge_ops ?same (merge_first k' p' t) = merge_first k' p' (merge_ops ?same t)"
      by simp
    with op IH False show ?thesis by simp
  qed
qed

lemma merge_ops_same_key:
  assumes "\<forall>op \<in> set ops. well_keyed op \<and> op_key op = k" and "doc_key q = Some k"
  shows "merge_ops ops (merge_first k q t) = merge_first k (q ++ merged ops) t"
  using assms
proof (induction ops arbitrary: q)
  case Nil
  then show ?case by simp
next
  case (Cons op ops)
  obtain k' p' where op: "op = UpdateOne k' p'" by (cases op)
  with Cons.prems have k': "k' = k" and wk: "doc_key p' = Some k"
    and rest: "\<forall>op \<in> set ops. well_keyed op \<and> op_key op = k" by simp_all
  have qp: "doc_key (q ++ p') = Some k"
    using wk by (simp add: doc_key_def)
  have "merge_ops (op # ops) (merge_first k q t)
      = merge_ops ops (merge_first k p' (merge_first k q t))"
    using op k' by simp
  also have "\<dots> = merge_ops ops (merge_first k (q ++ p') t)"
    using Cons.prems(2) by (simp add: merge_first_compose)
  also have "\<dots> = merge_first k ((q ++ p') ++ merged ops) t"
    by (rule Cons.IH [OF rest qp])
  finally show ?case using op by simp
qed

lemma merged_key:
  "\<forall>op \<in> set ops. well_keyed op \<and> op_key op = k \<Longrightarrow> doc_key q = Some k
     \<Longrightarrow> doc_key (q ++ merged ops) = Some k"
proof (induction ops arbitrary: q)
  case Nil
  then show ?case by simp
next
  case (Cons op ops)
  obtain k' p' where op: "op = UpdateOne k' p'" by (cases op)
  with Cons.prems have wk: "doc_key p' = Some k"
    and rest: "\<forall>op \<in> set ops. well_keyed op \<and> op_key op = k" by simp_all
  have "doc_key (q ++ p') = Some k" using wk by (simp add: doc_key_def)
  from Cons.IH [OF rest this] op show ?case by simp
qed

lemma merge_ops_idem:
  assumes "\<forall>op \<in> set ops. well_keyed op"
  shows "merge_ops ops (merge_ops ops t) = merge_ops ops t"
  using assms
proof (induction "length ops" arbitrary: ops t rule: less_induct)
  case less
  show ?case
  proof (cases ops)
    case Nil
    then show ?thesis by simp
  next
    case (Cons op rest)
    obtain k p where op: "op = UpdateOne k p" by (cases op)
    with Cons less.prems have wk: "doc_key p = Some k"
      and wrest: "\<forall>op \<in> set rest. well_keyed op" by simp_all
    let ?same = "filter (\<lambda>op. op_key op = k) rest"
    let ?other = "filter (\<lambda>op. op_key op \<noteq> k) rest"
    let ?Q = "p ++ merged ?same"
    have wsame: "\<forall>op \<in> set ?same. well_keyed op \<and> op_key op = k"
      using wrest by auto
    have wother: "\<forall>op \<in> set ?other. well_keyed op \<and> op_key op \<noteq> k"
      using wrest by auto
    have wother': "\<forall>op \<in> set ?other. well_keyed op"
      using wrest by auto
    have Qk: "doc_key ?Q = Some k"
      by (rule merged_key [OF wsame wk])
    have form: "merge_ops ops u = merge_ops ?other (merge_first k ?Q u)" for u
    proof -
      have "merge_ops ops u = merge_ops rest (merge_first k p u)"
        using Cons op by simp
      also have "\<dots> = merge_ops ?other (merge_ops ?same (merge_first k p u))"
        by (rule merge_ops_split [OF wrest])
      also have "merge_ops ?same (merge_first k p u) = merge_first k ?Q u"
        by (rule merge_ops_same_key [OF wsame wk])
      finally show ?thesis .
    qed
    have short: "length ?other < length ops"
      using Cons by (simp add: le_imp_less_Suc)
    have "merge_ops ops (merge_ops ops t)
        = merge_ops ?other (merge_first k ?Q (merge_ops ?other (merge_first k ?Q t)))"
      by (simp only: form)
    also have "merge_first k ?Q (merge_ops ?other (merge_first k ?Q t))
        = merge_ops ?other (merge_first k ?Q (merge_first k ?Q t))"
      by (rule merge_first_through_ops [OF wother Qk])
    also have "merge_first k ?Q (merge_first k ?Q t) = merge_first k (?Q ++ ?Q) t"
      by (rule merge_first_compose [OF Qk])
    also have "?Q ++ ?Q = ?Q"
      by (simp add: map_add_def fun_eq_iff split: option.splits)
    also have "merge_ops ?other (merge_ops ?other (merge_first k ?Q t))
        = merge_ops ?other (merge_first k ?Q t)"
      by (rule less.hyps [OF short wother'])
    also have "\<dots> = merge_ops ops t"
      by (simp only: form)
    finally show ?thesis .
  qed
qed

lemma new_seeds_cover:
  "\<forall>op \<in> set ops. Some (op_key op) \<in> K \<union> set (map doc_key (new_seeds ops K))"
proof (induction ops arbitrary: K)
  case Nil
  then show ?case by simp
next
  case (Cons op ops)
  obtain k p where op: "op = UpdateOne k p" by (cases op)
  show ?case
  proof (cases "Some k \<in> K")
    case True
    with op Cons.IH [of K] show ?thesis by simp
  next
    case False
    with op Cons.IH [of "insert (Some k) K"] show ?thesis
      by (auto simp: doc_key_def)
  qed
qed

lemma apply_ops_idem:
  assumes "\<forall>op \<in> set ops. well_keyed op"
  shows "apply_ops ops (apply_ops ops s) = apply_ops ops s"
proof -
  let ?s' = "s @ new_seeds ops (set (map doc_key s))"
  have first: "apply_ops ops s = merge_ops ops ?s'"
    by (rule apply_ops_seeds [OF assms])
  have "\<forall>op \<in> set ops. Some (op_key op) \<in> set (map doc_key ?s')"
    using new_seeds_cover [of ops "set (map doc_key s)"] by auto
  then have "\<forall>op \<in> set ops. Some (op_key op) \<in> set (map doc_key (merge_ops ops ?s'))"
    by (simp only: merge_ops_keys [OF assms])
  then have "apply_ops ops (merge_ops ops ?s') = merge_ops ops (merge_ops ops ?s')"
    by (rule apply_ops_present [OF assms])
  also have "\<dots> = merge_ops ops ?s'"
    by (rule merge_ops_idem [OF assms])
  finally show ?thesis by (simp only: first)
qed

lemma apply_ops_append: "apply_ops (a @ b) s = apply_ops b (apply_ops a s)"
proof (induction a arbitrary: s)
  case Nil
  then show ?case by simp
next
  case (Cons op a)
  then show ?case by (cases op) simp
qed

lemma bulk_write_store:
  "fst (bulk_write rejects ops s rep) = apply_ops (filter (\<lambda>op. \<not> refused rejects op) ops) s"
proof (induction ops arbitrary: s rep)
  case Nil
  then show ?case by simp
next
  case (Cons op ops)
  then show ?case by (cases op) simp
qed

lemma operations_well_keyed:
  "operations batch = Inr ops \<Longrightarrow> \<forall>op \<in> set ops. well_keyed op"
proof (induction batch arbitrary: ops)
  case Nil
  then show ?case by simp
next
  case (Cons post batch)
  then show ?case
    by (auto simp: doc_key_def split: option.splits sum.splits)
qed

lemma written_well_keyed: "\<forall>op \<in> set (written rejects avail b bs). well_keyed op"
proof (induction bs arbitrary: b)
  case Nil
  then show ?case by simp
next
  case (Cons batch rest)
  show ?case
  proof (cases "operations batch")
    case (Inl e)
    then show ?thesis by simp
  next
    case (Inr ops)
    with Cons [of "b + 1"] operations_well_keyed [OF Inr] show ?thesis by auto
  qed
qed

lemma load_batches_store:
  "snd (load_batches rejects avail b bs (c, s)) = apply_ops (written rejects avail b bs) s"
proof (induction bs arbitrary: b c s)
  case Nil
  then show ?case by simp
next
  case (Cons batch rest)
  show ?case
  proof (cases "operations batch")
    case (Inl e)
    then show ?thesis by simp
  next
    case (Inr ops)
    show ?thesis
    proof (cases "avail b")
      case False
      with Inr show ?thesis by simp
    next
      case True
      obtain s' rep where bw: "bulk_write rejects ops s no_writes = (s', rep)"
        by fastforce
      then have s': "s' = apply_ops (filter (\<lambda>op. \<not> refused rejects op) ops) s"
        using bulk_write_store [of rejects ops s no_writes] by simp
      show ?thesis
        using Inr True bw s' Cons.IH by (simp add: apply_ops_append)
    qed
  qed
qed

lemma load_records_store:
  "snd (load_records rejects avail n records (c, s))
     = apply_ops (stored_ops rejects avail n records) s"
  by (simp add: load_records_def stored_ops_def load_batches_store)

lemma stored_ops_well_keyed: "\<forall>op \<in> set (stored_ops rejects avail n records). well_keyed op"
  by (simp add: stored_ops_def written_well_keyed)

lemma written_prefix:
  assumes "\<forall>b. avail b \<longrightarrow> avail' b"
  shows "\<exists>later. written rejects avail' b bs = written rejects avail b bs @ later"
proof (induction bs arbitrary: b)
  case Nil
  then show ?case by simp
next
  case (Cons batch rest)
  show ?case
  proof (cases "operations batch")
    case (Inl e)
    then show ?thesis by simp
  next
    case (Inr ops)
    show ?thesis
    proof (cases "avail b")
      case False
      with Inr show ?thesis by simp
    next
      case True
      with assms have "avail' b" by simp
      moreover from Cons [of "b + 1"] obtain later
        where "written rejects avail' (b + 1) rest = written rejects avail (b + 1) rest @ later"
        by blast
      ultimately show ?thesis using Inr True by simp
    qed
  qed
qed

lemma stored_ops_prefix:
  assumes "\<forall>b. avail b \<longrightarrow> avail' b"
  shows "\<exists>later. stored_ops rejects avail' n records = stored_ops rejects avail n records @ later"
proof (cases "records = [] \<or> n \<le> 0")
  case True
  then show ?thesis by (simp add: stored_ops_def)
next
  case False
  from written_prefix [OF assms, of rejects 0 "batches (nat n) records"]
  show ?thesis using False by (simp add: stored_ops_def)
qed

lemma apply_ops_again:
  assumes "\<forall>op \<in> set w. well_keyed op"
  shows "apply_ops (w @ later) (apply_ops w s) = apply_ops (w @ later) s"
  by (simp only: apply_ops_append apply_ops_idem [OF assms])

lemma load_records_again:
  assumes "\<forall>b. avail b \<longrightarrow> avail' b"
  shows "snd (load_records rejects avail' n records
            (c', snd (load_records rejects avail n records (c, s))))
     = snd (load_records rejects avail' n records (c'', s))"
proof -
  from stored_ops_prefix [OF assms] obtain later
    where m: "stored_ops rejects avail' n records = stored_ops rejects avail n records @ later"
    by blast
  show ?thesis
    unfolding load_records_store m
    by (rule apply_ops_again [OF stored_ops_well_keyed])
qed

lemma load_records_idem:
  "snd (load_records rejects avail n records
          (c', snd (load_records rejects avail n records (c, s))))
     = snd (load_records rejects avail n records (c, s))"
  by (simp only: load_records_store apply_ops_idem [OF stored_ops_well_keyed])

lemma count_key_keys:
  "count_key coll k = length (filter (\<lambda>x. x = Some k) (map doc_key coll))"
  by (simp add: count_key_def doc_key_def filter_map comp_def)

lemma count_key_zero: "count_key coll k = 0 \<longleftrightarrow> Some k \<notin> set (map doc_key coll)"
  by (induction coll) (simp_all add: count_key_def doc_key_def)

lemma count_key_append: "count_key (a @ b) k = count_key a k + count_key b k"
  by (simp add: count_key_def)

lemma count_key_same_keys:
  "map doc_key a = map doc_key b \<Longrightarrow> count_key a k = count_key b k"
  by (simp add: count_key_keys)

lemma new_seeds_count:
  "count_key (new_seeds ops K) k = (if Some k \<notin> K \<and> k \<in> op_key ` set ops then 1 else 0)"
proof (induction ops arbitrary: K)
  case Nil
  then show ?case by (simp add: count_key_def)
next
  case (Cons op ops)
  obtain k' p' where op: "op = UpdateOne k' p'" by (cases op)
  show ?case
  proof (cases "Some k' \<in> K")
    case True
    have "count_key (new_seeds (op # ops) K) k = count_key (new_seeds ops K) k"
      using op True by simp
    also have "\<dots> = (if Some k \<notin> K \<and> k \<in> op_key ` set ops then 1 else 0)"
      by (rule Cons.IH)
    also have "\<dots> = (if Some k \<notin> K \<and> k \<in> op_key ` set (op # ops) then 1 else 0)"
      using op True by auto
    finally show ?thesis .
  next
    case False
    have "count_key (new_seeds (op # ops) K) k
        = (if k' = k then 1 else 0) + count_key (new_seeds ops (insert (Some k') K)) k"
      using op False by (simp add: count_key_def)
    also have "count_key (new_seeds ops (insert (Some k') K)) k
        = (if Some k \<notin> insert (Some k') K \<and> k \<in> op_key ` set ops then 1 else 0)"
      by (rule Cons.IH)
    finally show ?thesis using op False by auto
  qed
qed

lemma apply_ops_count:
  assumes "\<forall>op \<in> set ops. well_keyed op"
  shows "count_key (apply_ops ops s) k
     = count_key s k + (if count_key s k = 0 \<and> k \<in> op_key ` set ops then 1 else 0)"
proof -
  let ?s' = "s @ new_seeds ops (set (map doc_key s))"
  have "count_key (apply_ops ops s) k = count_key (merge_ops ops ?s') k"
    by (simp only: apply_ops_seeds [OF assms])
  also have "\<dots> = count_key ?s' k"
    by (rule count_key_same_keys [OF merge_ops_keys [OF assms]])
  also have "\<dots> = count_key s k + count_key (new_seeds ops (set (map doc_key s))) k"
    by (rule count_key_append)
  also have "count_key (new_seeds ops (set (map doc_key s))) k
      = (if Some k \<notin> set (map doc_key s) \<and> k \<in> op_key ` set ops then 1 else 0)"
    by (rule new_seeds_count)
  also have "Some k \<notin> set (map doc_key s) \<longleftrightarrow> count_key s k = 0"
    by (rule count_key_zero [symmetric])
  finally show ?thesis .
qed

lemma written_keys:
  assumes "\<forall>q \<in> set (concat bs). doc_key q \<noteq> None \<and> \<not> rejects q"
    and "p \<in> set (concat bs)" and "doc_key p = Some k" and "\<forall>b. avail b"
  shows "k \<in> op_key ` set (written rejects avail b bs)"
  using assms
proof (induction bs arbitrary: b)
  case Nil
  then show ?case by simp
next
  case (Cons batch rest)
  have ok: "\<forall>q \<in> set batch. doc_key q \<noteq> None \<and> \<not> rejects q"
    using Cons.prems(1) by simp
  have up: "avail b" using Cons.prems(4) by blast
  have built: "\<exists>ops. operations b = Inr ops
      \<and> (\<forall>q \<in> set b. \<forall>j. doc_key q = Some j \<longrightarrow> UpdateOne j q \<in> set ops)"
    if "\<forall>q \<in> set b. doc_key q \<noteq> None" for b :: "'a document list"
    using that
  proof (induction b)
    case Nil
    then show ?case by simp
  next
    case (Cons q b)
    then obtain ops where "operations b = Inr ops"
      and "\<forall>q \<in> set b. \<forall>j. doc_key q = Some j \<longrightarrow> UpdateOne j q \<in> set ops"
      by auto
    moreover obtain j where "doc_key q = Some j" using Cons.prems by auto
    ultimately show ?case by (auto simp: doc_key_def)
  qed
  from built [of batch] ok obtain ops where ops: "operations batch = Inr ops"
    and mem: "\<forall>q \<in> set batch. \<forall>j. doc_key q = Some j \<longrightarrow> UpdateOne j q \<in> set ops"
    by blast
  show ?case
  proof (cases "p \<in> set batch")
    case True
    with mem Cons.prems(3) have "UpdateOne k p \<in> set ops" by blast
    moreover have "\<not> refused rejects (UpdateOne k p)" using ok True by simp
    ultimately have "UpdateOne k p \<in> set (written rejects avail b (batch # rest))"
      using ops up by simp
    then have "op_key (UpdateOne k p) \<in> op_key ` set (written rejects avail b (batch # rest))"
      by (rule imageI)
    then show ?thesis by (simp only: op_key.simps)
  next
    case False
    with Cons.prems have p: "p \<in> set (concat rest)" by simp
    have r: "\<forall>q \<in> set (concat rest). doc_key q \<noteq> None \<and> \<not> rejects q"
      using Cons.prems(1) by simp
    have "k \<in> op_key ` set (written rejects avail (b + 1) rest)"
      by (rule Cons.IH [OF r p Cons.prems(3,4)])
    then show ?thesis using ops up by auto
  qed
qed

lemma batches_concat: "0 < n \<Longrightarrow> concat (batches n xs) = xs"
proof (induction n xs rule: batches.induct)
  case (1 n xs)
  show ?case
  proof (cases "xs = []")
    case True
    then show ?thesis by (subst batches.simps) simp
  next
    case False
    with 1 show ?thesis by (subst batches.simps) simp
  qed
qed

lemma stored_ops_keys:
  assumes "0 < n" and "\<forall>q \<in> set records. doc_key q \<noteq> None \<and> \<not> rejects q"
    and "p \<in> set records" and "doc_key p = Some k" and "\<forall>b. avail b"
  shows "k \<in> op_key ` set (stored_ops rejects avail n records)"
proof -
  have c: "concat (batches (nat n) records) = records"
    using assms(1) by (simp add: batches_concat)
  have "k \<in> op_key ` set (written rejects avail 0 (batches (nat n) records))"
    by (rule written_keys [where p = p]) (simp_all add: c assms)
  then show ?thesis using assms(1,3) by (auto simp: stored_ops_def)
qed

lemma load_records_count:
  "count_key (snd (load_records rejects avail n records (c, s))) k
     = count_key s k
       + (if count_key s k = 0 \<and> k \<in> op_key ` set (stored_ops rejects avail n records)
          then 1 else 0)"
  by (simp only: load_records_store apply_ops_count [OF stored_ops_well_keyed])

lemma load_posts_collection:
  shows "posts_collection (load_posts rejects avail l records)
     = snd (load_records rejects avail (batch_size l) records
         (\<lparr>inserted = posts_inserted (loader_stats l), updated = posts_updated (loader_stats l),
           load_errors = loader_errors (loader_stats l)\<rparr>, posts_collection l))"
    and "batch_size (load_posts rejects avail l records) = batch_size l"
  by (simp_all add: load_posts_def case_prod_beta)

lemma load_comments_collection:
  shows "comments_collection (load_comments rejects avail l records)
     = snd (load_records rejects avail (batch_size l) records
         (\<lparr>inserted = comments_inserted (loader_stats l),
           updated = comments_updated (loader_stats l),
           load_errors = loader_errors (loader_stats l)\<rparr>, comments_collection l))"
    and "batch_size (load_comments rejects avail l records) = batch_size l"
  by (simp_all add: load_comments_def case_prod_beta)

lemma load_records_bounds:
  shows "count_key s k \<le> count_key (snd (load_records rejects avail n records (c, s))) k"
    and "count_key (snd (load_records rejects avail n records (c, s))) k \<le> max 1 (count_key s k)"
  unfolding load_records_count by simp_all

lemma load_records_one:
  assumes "0 < n" and "\<forall>b. avail b"
    and "\<forall>q \<in> set records. q ''reddit_id'' \<noteq> None \<and> \<not> rejects q"
    and "p \<in> set records" and "p ''reddit_id'' = Some k" and "count_key s k \<le> 1"
  shows "count_key (snd (load_records rejects avail n records (c, s))) k = 1"
proof -
  have "\<forall>q \<in> set records. doc_key q \<noteq> None \<and> \<not> rejects q"
    using assms(3) by (simp add: doc_key_def)
  moreover have "doc_key p = Some k" using assms(5) by (simp add: doc_key_def)
  ultimately have "k \<in> op_key ` set (stored_ops rejects avail n records)"
    using assms(1,2,4) by (intro stored_ops_keys [where p = p]) simp_all
  then show ?thesis
    unfolding load_records_count using assms(6) by simp
qed

lemma load_posts_twice:
  assumes "\<forall>b. avail b \<longrightarrow> avail' b"
  shows "posts_collection (load_posts rejects avail' (load_posts rejects avail l records) records)
     = posts_collection (load_posts rejects avail' l records)"
proof -
  let ?once = "load_posts rejects avail l records"
  let ?c = "\<lparr>inserted = posts_inserted (loader_stats l), updated = posts_updated (loader_stats l),
      load_errors = loader_errors (loader_stats l)\<rparr>"
  let ?c' = "\<lparr>inserted = posts_inserted (loader_stats ?once),
      updated = posts_updated (loader_stats ?once),
      load_errors = loader_errors (loader_stats ?once)\<rparr>"
  have "posts_collection (load_posts rejects avail' ?once records)
      = snd (load_records rejects avail' (batch_size l) records
          (?c', snd (load_records rejects avail (batch_size l) records (?c, posts_collection l))))"
    by (simp only: load_posts_collection)
  also have "\<dots> = snd (load_records rejects avail' (batch_size l) records (?c, posts_collection l))"
    by (rule load_records_again [OF assms])
  also have "\<dots> = posts_collection (load_posts rejects avail' l records)"
    by (simp only: load_posts_collection)
  finally show ?thesis .
qed

lemma load_comments_twice:
  assumes "\<forall>b. avail b \<longrightarrow> avail' b"
  shows "comments_collection
       (load_comments rejects avail' (load_comments rejects avail l records) records)
     = comments_collection (load_comments rejects avail' l records)"
proof -
  let ?once = "load_comments rejects avail l records"
  let ?c = "\<lparr>inserted = comments_inserted (loader_stats l),
      updated = comments_updated (loader_stats l),
      load_errors = loader_errors (loader_stats l)\<rparr>"
  let ?c' = "\<lparr>inserted = comments_inserted (loader_stats ?once),
      updated = comments_updated (loader_stats ?once),
      load_errors = loader_errors (loader_stats ?once)\<rparr>"
  have "comments_collection (load_comments rejects avail' ?once records)
      = snd (load_records rejects avail' (batch_size l) records
          (?c', snd (load_records rejects avail (batch_size l) records
                   (?c, comments_collection l))))"
    by (simp only: load_comments_collection)
  also have "\<dots>
      = snd (load_records rejects avail' (batch_size l) records (?c, comments_collection l))"
    by (rule load_records_again [OF assms])
  also have "\<dots> = comments_collection (load_comments rejects avail' l records)"
    by (simp only: load_comments_collection)
  finally show ?thesis .
qed

lemma load_other_collection:
  shows "comments_collection (load_posts rejects avail l records) = comments_collection l"
    and "posts_collection (load_comments rejects avail l records) = posts_collection l"
  by (simp_all add: load_posts_def load_comments_def case_prod_beta)



lemma written_nothing:
  assumes "(\<forall>d. rejects d) \<or> (\<forall>b. \<not> avail b)"
  shows "written rejects avail b bs = []"
proof (induction bs arbitrary: b)
  case Nil
  then show ?case by simp
next
  case (Cons batch rest)
  show ?case
  proof (cases "operations batch")
    case (Inl e)
    then show ?thesis by simp
  next
    case (Inr ops)
    from assms show ?thesis
    proof
      assume all: "\<forall>d. rejects d"
      have "refused rejects op" for op using all by (cases op) simp
      then have "filter (\<lambda>op. \<not> refused rejects op) ops = []" by simp
      with Inr Cons [of "b + 1"] show ?thesis by simp
    next
      assume "\<forall>b. \<not> avail b"
      then have "\<not> avail b" by blast
      with Inr show ?thesis by simp
    qed
  qed
qed


end
